theory Spec2Isabelle
  imports Main "HOL-Library.Sublist"
begin

section \<open>Go strings as byte lists\<close>

text \<open>
  A Go \<^verbatim>\<open>string\<close> is a sequence of bytes; \<^verbatim>\<open>len\<close> counts bytes and
  \<^verbatim>\<open>s[i:j]\<close> slices bytes. It is modelled by \<^typ>\<open>string\<close>, a list of 8-bit
  characters. The library functions the scrapers call are modelled on that representation.
\<close>

text \<open>\<^verbatim>\<open>strings.HasPrefix(s, p)\<close>.\<close>

definition HasPrefix :: "string \<Rightarrow> string \<Rightarrow> bool" where
  "HasPrefix s p = (take (length p) s = p)"

text \<open>\<^verbatim>\<open>strings.TrimPrefix(s, p)\<close>: \<^verbatim>\<open>s\<close> without the leading \<^verbatim>\<open>p\<close>, or
  \<^verbatim>\<open>s\<close> itself when it does not start with \<^verbatim>\<open>p\<close>.\<close>

definition TrimPrefix :: "string \<Rightarrow> string \<Rightarrow> string" where
  "TrimPrefix s p = (if HasPrefix s p then drop (length p) s else s)"

text \<open>
  The character class \<^verbatim>\<open>[\s\-\(\)]\<close> of both \<^verbatim>\<open>formatPhone\<close> and
  \<^verbatim>\<open>isPhoneNumber\<close>. In Go's regular expressions \<^verbatim>\<open>\s\<close> is
  \<^verbatim>\<open>[\t\n\f\r ]\<close>; every member of the class is one ASCII byte.
\<close>

definition is_ws :: "char \<Rightarrow> bool" where
  "is_ws c = (c = CHR 0x09 \<or> c = CHR 0x0A \<or> c = CHR 0x0C \<or> c = CHR 0x0D \<or> c = CHR '' '')"

definition is_sep :: "char \<Rightarrow> bool" where
  "is_sep c = (is_ws c \<or> c = CHR ''-'' \<or> c = CHR ''('' \<or> c = CHR '')'')"

text \<open>\<^verbatim>\<open>regexp.MustCompile(`[\s\-\(\)]`).ReplaceAllString(s, "")\<close>: every byte of the
  class is deleted, every other byte is kept.\<close>

definition clean :: "string \<Rightarrow> string" where
  "clean s = filter (\<lambda>c. \<not> is_sep c) s"

section \<open>The normalizer \<^verbatim>\<open>formatPhone\<close>\<close>

text \<open>\<^verbatim>\<open>fmt.Sprintf("%s %s %s", cleaned[:3], cleaned[3:6], cleaned[6:])\<close>, which the
  source evaluates only where \<^verbatim>\<open>len(cleaned) == 10\<close>, so that no slice is out of
  range.\<close>

definition group334 :: "string \<Rightarrow> string" where
  "group334 cleaned = take 3 cleaned @ '' '' @ take 3 (drop 3 cleaned) @ '' '' @ drop 6 cleaned"

text \<open>
  \<^verbatim>\<open>formatPhone\<close> is the same function in \<^verbatim>\<open>phone_scraper.go\<close> and in the batch
  scraper. The variable \<^verbatim>\<open>cleaned\<close> is reassigned inside the first \<^verbatim>\<open>if\<close>; the
  second \<^verbatim>\<open>if\<close> reads the reassigned value.
\<close>

definition formatPhone :: "string \<Rightarrow> string" where
  "formatPhone phone =
     (let cleaned = clean phone in
      if HasPrefix cleaned ''+52'' then
        (let cleaned2 = TrimPrefix cleaned ''+52'' in
         if length cleaned2 = 10 then group334 cleaned2
         else if length cleaned2 = 10 \<and> \<not> HasPrefix cleaned2 ''+'' then group334 cleaned2
         else phone)
      else if length cleaned = 10 \<and> \<not> HasPrefix cleaned ''+'' then group334 cleaned
      else phone)"

definition is_digit :: "char \<Rightarrow> bool" where
  "is_digit c = (c \<in> set ''0123456789'')"

text \<open>\<^verbatim>\<open>strings.Contains(s, sub)\<close>: \<^verbatim>\<open>sub\<close> occurs at some position of \<^verbatim>\<open>s\<close>.\<close>

fun Contains :: "string \<Rightarrow> string \<Rightarrow> bool" where
  "Contains [] sub = HasPrefix [] sub"
| "Contains (c # cs) sub = (HasPrefix (c # cs) sub \<or> Contains cs sub)"

text \<open>\<^verbatim>\<open>strings.Replace(s, old, new, 1)\<close> for a non-empty \<^verbatim>\<open>old\<close>: the first
  (leftmost) occurrence of \<^verbatim>\<open>old\<close> is replaced, the rest of \<^verbatim>\<open>s\<close> is kept.\<close>

fun Replace1 :: "string \<Rightarrow> string \<Rightarrow> string \<Rightarrow> string" where
  "Replace1 [] old new = (if HasPrefix [] old then new else [])"
| "Replace1 (c # cs) old new =
     (if HasPrefix (c # cs) old then new @ drop (length old) (c # cs)
      else c # Replace1 cs old new)"

subsection \<open>\<^verbatim>\<open>strings.TrimSpace\<close>\<close>

text \<open>
  \<^verbatim>\<open>strings.TrimSpace\<close> removes the leading and the trailing white space, as
  \<^verbatim>\<open>unicode.IsSpace\<close> defines it, rune by rune. The white-space runes are listed here
  by their UTF-8 encodings: the six ASCII ones, U+0085, U+00A0, U+1680, U+2000 to U+200A,
  U+2028, U+2029, U+202F, U+205F and U+3000. A string starts (ends) with a white-space rune
  exactly when it starts (ends) with one of these encodings, because an encoding begins
  with a lead byte and no other rune's encoding contains one.
\<close>

definition space_runes :: "string list" where
  "space_runes =
     [[CHR 0x09], [CHR 0x0A], [CHR 0x0B], [CHR 0x0C], [CHR 0x0D], [CHR 0x20],
      [CHR 0xC2, CHR 0x85], [CHR 0xC2, CHR 0xA0],
      [CHR 0xE1, CHR 0x9A, CHR 0x80],
      [CHR 0xE2, CHR 0x80, CHR 0x80], [CHR 0xE2, CHR 0x80, CHR 0x81],
      [CHR 0xE2, CHR 0x80, CHR 0x82], [CHR 0xE2, CHR 0x80, CHR 0x83],
      [CHR 0xE2, CHR 0x80, CHR 0x84], [CHR 0xE2, CHR 0x80, CHR 0x85],
      [CHR 0xE2, CHR 0x80, CHR 0x86], [CHR 0xE2, CHR 0x80, CHR 0x87],
      [CHR 0xE2, CHR 0x80, CHR 0x88], [CHR 0xE2, CHR 0x80, CHR 0x89],
      [CHR 0xE2, CHR 0x80, CHR 0x8A],
      [CHR 0xE2, CHR 0x80, CHR 0xA8], [CHR 0xE2, CHR 0x80, CHR 0xA9],
      [CHR 0xE2, CHR 0x80, CHR 0xAF], [CHR 0xE2, CHR 0x81, CHR 0x9F],
      [CHR 0xE3, CHR 0x80, CHR 0x80]]"

text \<open>The number of bytes of the rune of \<open>runes\<close> that \<open>s\<close> starts with, 0 when it
  starts with none.\<close>

definition rune_len :: "string list \<Rightarrow> string \<Rightarrow> nat" where
  "rune_len runes s = (case find (HasPrefix s) runes of Some w \<Rightarrow> length w | None \<Rightarrow> 0)"

fun trim_front :: "string list \<Rightarrow> string \<Rightarrow> string" where
  "trim_front runes [] = []"
| "trim_front runes (c # cs) =
     (if rune_len runes (c # cs) = 0 then c # cs
      else trim_front runes (drop (rune_len runes (c # cs) - 1) cs))"

definition TrimLeft :: "string \<Rightarrow> string" where
  "TrimLeft s = trim_front space_runes s"

definition TrimRight :: "string \<Rightarrow> string" where
  "TrimRight s = rev (trim_front (map rev space_runes) (rev s))"

definition TrimSpace :: "string \<Rightarrow> string" where
  "TrimSpace s = TrimRight (TrimLeft s)"

section \<open>Regular expressions of the scrapers\<close>

text \<open>
  Every regular expression of the scrapers is a sequence of items \<open>x\<close> or \<open>x?\<close>, where
  \<open>x\<close> is a literal byte or one of the classes \<^verbatim>\<open>\d\<close> (\<^verbatim>\<open>[0-9]\<close>), \<^verbatim>\<open>\s\<close> and
  \<^verbatim>\<open>[\s\-]\<close>; a counted repetition \<^verbatim>\<open>\d{3}\<close> is three items. An expression is the list of
  its items.
\<close>

datatype cls = Digit | Ws | WsHyphen | Lit char

fun in_cls :: "cls \<Rightarrow> char \<Rightarrow> bool" where
  "in_cls Digit c = is_digit c"
| "in_cls Ws c = is_ws c"
| "in_cls WsHyphen c = (is_ws c \<or> c = CHR ''-'')"
| "in_cls (Lit l) c = (c = l)"

datatype atom = One cls | Opt cls

text \<open>
  The match of the expression that starts at the first byte of the text, if there is one.
  Go's \<^verbatim>\<open>regexp\<close> prefers, as Perl does, the match a backtracking search finds first:
  \<open>x?\<close> takes the byte when the rest can still match, and skips it otherwise.
\<close>

fun match_here :: "atom list \<Rightarrow> string \<Rightarrow> string option" where
  "match_here [] s = Some []"
| "match_here (One k # re) [] = None"
| "match_here (One k # re) (c # cs) =
     (if in_cls k c then map_option (Cons c) (match_here re cs) else None)"
| "match_here (Opt k # re) [] = match_here re []"
| "match_here (Opt k # re) (c # cs) =
     (if in_cls k c then
        (case match_here re cs of Some m \<Rightarrow> Some (c # m) | None \<Rightarrow> match_here re (c # cs))
      else match_here re (c # cs))"

text \<open>\<^verbatim>\<open>re.FindString(text)\<close>: the leftmost match, or the empty string when there is
  none.\<close>

fun FindString :: "atom list \<Rightarrow> string \<Rightarrow> string" where
  "FindString re [] = (case match_here re [] of Some m \<Rightarrow> m | None \<Rightarrow> [])"
| "FindString re (c # cs) =
     (case match_here re (c # cs) of Some m \<Rightarrow> m | None \<Rightarrow> FindString re cs)"

text \<open>\<^verbatim>\<open>re.MatchString(text)\<close> for an expression anchored by \<^verbatim>\<open>^\<close> and \<^verbatim>\<open>$\<close>:
  the whole text matches.\<close>

fun MatchWhole :: "atom list \<Rightarrow> string \<Rightarrow> bool" where
  "MatchWhole [] s = (s = [])"
| "MatchWhole (One k # re) [] = False"
| "MatchWhole (One k # re) (c # cs) = (in_cls k c \<and> MatchWhole re cs)"
| "MatchWhole (Opt k # re) [] = MatchWhole re []"
| "MatchWhole (Opt k # re) (c # cs) =
     ((in_cls k c \<and> MatchWhole re cs) \<or> MatchWhole re (c # cs))"

text \<open>\<^verbatim>\<open>\+?52\s?\d{3}\s?\d{3}\s?\d{4}\<close>\<close>

definition mexicanPhoneRegex :: "atom list" where
  "mexicanPhoneRegex =
     [Opt (Lit CHR ''+''), One (Lit CHR ''5''), One (Lit CHR ''2''), Opt Ws]
     @ replicate 3 (One Digit) @ [Opt Ws] @ replicate 3 (One Digit) @ [Opt Ws]
     @ replicate 4 (One Digit)"

text \<open>\<^verbatim>\<open>\d{3}\s?\d{3}\s?\d{4}\<close>\<close>

definition tenDigitRegex :: "atom list" where
  "tenDigitRegex =
     replicate 3 (One Digit) @ [Opt Ws] @ replicate 3 (One Digit) @ [Opt Ws]
     @ replicate 4 (One Digit)"

text \<open>\<^verbatim>\<open>\d{3}[\s\-]?\d{3}[\s\-]?\d{4}\<close>\<close>

definition generalPhoneRegex :: "atom list" where
  "generalPhoneRegex =
     replicate 3 (One Digit) @ [Opt WsHyphen] @ replicate 3 (One Digit) @ [Opt WsHyphen]
     @ replicate 4 (One Digit)"

text \<open>\<^verbatim>\<open>^\+?\d{10,15}$\<close>: ten digits, then up to five more.\<close>

definition phonePattern :: "atom list" where
  "phonePattern = [Opt (Lit CHR ''+'')] @ replicate 10 (One Digit) @ replicate 5 (Opt Digit)"

section \<open>The text-pattern matcher and the validator\<close>

text \<open>\<^verbatim>\<open>extractPhoneFromText\<close> of \<^verbatim>\<open>phone_scraper.go\<close>, with its three patterns.\<close>

definition extractPhoneFromText :: "string \<Rightarrow> string" where
  "extractPhoneFromText text =
     (let match1 = FindString mexicanPhoneRegex text in
      if match1 \<noteq> [] then formatPhone (TrimSpace match1)
      else
        let match2 = FindString tenDigitRegex text in
        if match2 \<noteq> [] then TrimSpace match2
        else
          let match3 = FindString generalPhoneRegex text in
          if match3 \<noteq> [] then TrimSpace match3
          else [])"

text \<open>\<^verbatim>\<open>extractPhoneFromText\<close> of the batch scraper, which has the first two patterns
  only.\<close>

definition extractPhoneFromText_batch :: "string \<Rightarrow> string" where
  "extractPhoneFromText_batch text =
     (let match1 = FindString mexicanPhoneRegex text in
      if match1 \<noteq> [] then formatPhone (TrimSpace match1)
      else
        let match2 = FindString tenDigitRegex text in
        if match2 \<noteq> [] then TrimSpace match2
        else [])"

text \<open>\<^verbatim>\<open>isPhoneNumber\<close>, the same in both files.\<close>

definition isPhoneNumber :: "string \<Rightarrow> bool" where
  "isPhoneNumber text = (let cleaned = clean text in MatchWhole phonePattern cleaned)"

subsection \<open>Auxiliary predicates on expressions\<close>

text \<open>An item of a phone pattern: a required digit (a digit literal or \<^verbatim>\<open>\d\<close>) or an
  optional separator (\<^verbatim>\<open>\s?\<close> or \<^verbatim>\<open>[\s\-]?\<close>).\<close>

fun phone_atom :: "atom \<Rightarrow> bool" where
  "phone_atom (One Digit) = True"
| "phone_atom (One (Lit l)) = is_digit l"
| "phone_atom (One _) = False"
| "phone_atom (Opt Ws) = True"
| "phone_atom (Opt WsHyphen) = True"
| "phone_atom (Opt _) = False"

fun is_One :: "atom \<Rightarrow> bool" where
  "is_One (One _) = True"
| "is_One (Opt _) = False"

section \<open>The locator \<^verbatim>\<open>findPhoneNumber\<close>\<close>

text \<open>
  The page is the browser's; the scrapers see it through four element queries and, on an
  element, through \<^verbatim>\<open>Attribute\<close> and \<^verbatim>\<open>Text\<close>. An attribute read fails, finds no
  attribute (a nil pointer) or gives the value; a text read fails or gives the text; a query
  fails or gives the elements in document order.
\<close>

datatype attr = AttrError | AttrAbsent | AttrValue string

record element =
  el_data_item_id :: attr
  el_aria_label :: attr
  el_text :: "string option"

record page =
  elements_phone_button :: "element list option"
  elements_aria_label :: "element list option"
  elements_number_class :: "element list option"
  elements_all :: "element list option"

text \<open>A \<^verbatim>\<open>for _, element := range elements\<close> loop whose body may \<^verbatim>\<open>return\<close>:
  \<open>Some r\<close> is the value returned from inside the loop, \<open>None\<close> means that the loop
  ran to its end.\<close>

fun for_range :: "('a \<Rightarrow> 'r option) \<Rightarrow> 'a list \<Rightarrow> 'r option" where
  "for_range body [] = None"
| "for_range body (x # xs) = (case body x of Some r \<Rightarrow> Some r | None \<Rightarrow> for_range body xs)"

text \<open>The body of the first loop: the \<^verbatim>\<open>data-item-id\<close> attribute, then the text of the
  button. The result of \<^verbatim>\<open>formatPhone\<close> is returned without a test for the empty
  string.\<close>

definition phone_button_body :: "(string \<Rightarrow> string) \<Rightarrow> element \<Rightarrow> string option" where
  "phone_button_body extract e =
     (case (case el_data_item_id e of
              AttrValue dataItemId \<Rightarrow>
                if Contains dataItemId ''phone:tel:''
                then Some (formatPhone (Replace1 dataItemId ''phone:tel:'' []))
                else None
            | AttrAbsent \<Rightarrow> None
            | AttrError \<Rightarrow> None) of
        Some r \<Rightarrow> Some r
      | None \<Rightarrow>
          (case el_text e of
             Some t \<Rightarrow> (let extractedPhone = extract t in
                        if extractedPhone \<noteq> [] then Some extractedPhone else None)
           | None \<Rightarrow> None))"

definition aria_label_body :: "(string \<Rightarrow> string) \<Rightarrow> element \<Rightarrow> string option" where
  "aria_label_body extract e =
     (case el_aria_label e of
        AttrValue ariaLabel \<Rightarrow> (let extractedPhone = extract ariaLabel in
                                if extractedPhone \<noteq> [] then Some extractedPhone else None)
      | AttrAbsent \<Rightarrow> None
      | AttrError \<Rightarrow> None)"

definition number_class_body :: "element \<Rightarrow> string option" where
  "number_class_body e =
     (case el_text e of
        Some t \<Rightarrow> (let t2 = TrimSpace t in if isPhoneNumber t2 then Some t2 else None)
      | None \<Rightarrow> None)"

definition all_elements_body :: "(string \<Rightarrow> string) \<Rightarrow> element \<Rightarrow> string option" where
  "all_elements_body extract e =
     (case el_text e of
        Some t \<Rightarrow>
          if t \<noteq> [] then
            (let extractedPhone = extract t in
             if extractedPhone \<noteq> [] then Some extractedPhone else None)
          else None
      | None \<Rightarrow> None)"

text \<open>The four blocks of \<^verbatim>\<open>findPhoneNumber\<close>, each guarded by the success of its
  query (and, in the first three, by a non-empty result list).\<close>

definition strategy1 :: "(string \<Rightarrow> string) \<Rightarrow> page \<Rightarrow> string option" where
  "strategy1 extract pg =
     (case elements_phone_button pg of
        Some phoneElements \<Rightarrow>
          if length phoneElements > 0 then for_range (phone_button_body extract) phoneElements
          else None
      | None \<Rightarrow> None)"

definition strategy2 :: "(string \<Rightarrow> string) \<Rightarrow> page \<Rightarrow> string option" where
  "strategy2 extract pg =
     (case elements_aria_label pg of
        Some phoneElements \<Rightarrow>
          if length phoneElements > 0 then for_range (aria_label_body extract) phoneElements
          else None
      | None \<Rightarrow> None)"

definition strategy3 :: "page \<Rightarrow> string option" where
  "strategy3 pg =
     (case elements_number_class pg of
        Some phoneElements \<Rightarrow>
          if length phoneElements > 0 then for_range number_class_body phoneElements
          else None
      | None \<Rightarrow> None)"

definition strategy4 :: "(string \<Rightarrow> string) \<Rightarrow> page \<Rightarrow> string option" where
  "strategy4 extract pg =
     (case elements_all pg of
        Some allElements \<Rightarrow> for_range (all_elements_body extract) allElements
      | None \<Rightarrow> None)"

text \<open>\<^verbatim>\<open>findPhoneNumber\<close> of \<^verbatim>\<open>phone_scraper.go\<close>: four blocks, then
  \<^verbatim>\<open>return ""\<close>.\<close>

definition findPhoneNumber :: "page \<Rightarrow> string" where
  "findPhoneNumber pg =
     (case strategy1 extractPhoneFromText pg of
        Some r \<Rightarrow> r
      | None \<Rightarrow>
     (case strategy2 extractPhoneFromText pg of
        Some r \<Rightarrow> r
      | None \<Rightarrow>
     (case strategy3 pg of
        Some r \<Rightarrow> r
      | None \<Rightarrow>
     (case strategy4 extractPhoneFromText pg of
        Some r \<Rightarrow> r
      | None \<Rightarrow> []))))"

text \<open>\<^verbatim>\<open>findPhoneNumber\<close> of the batch scraper: the first three blocks, then
  \<^verbatim>\<open>return ""\<close>. It has no fourth block.\<close>

definition findPhoneNumber_batch :: "page \<Rightarrow> string" where
  "findPhoneNumber_batch pg =
     (case strategy1 extractPhoneFromText_batch pg of
        Some r \<Rightarrow> r
      | None \<Rightarrow>
     (case strategy2 extractPhoneFromText_batch pg of
        Some r \<Rightarrow> r
      | None \<Rightarrow>
     (case strategy3 pg of
        Some r \<Rightarrow> r
      | None \<Rightarrow> [])))"

subsection \<open>The locator as the specification words it\<close>

text \<open>What a strategy produces, as a string: the empty string when it produces nothing.\<close>

definition produced :: "string option \<Rightarrow> string" where
  "produced r = (case r of Some p \<Rightarrow> p | None \<Rightarrow> [])"

text \<open>The first non-empty result of the strategies tried in order, and the empty string
  (absent) when every result is empty.\<close>

fun first_nonempty :: "string list \<Rightarrow> string" where
  "first_nonempty [] = []"
| "first_nonempty (r # rs) = (if r \<noteq> [] then r else first_nonempty rs)"

text \<open>The locator of the specification over a matcher: strategies 1, 2, 3 and the fallback
  scan 4, in that order.\<close>

definition locate_spec :: "(string \<Rightarrow> string) \<Rightarrow> page \<Rightarrow> string" where
  "locate_spec extract pg =
     first_nonempty
       [produced (strategy1 extract pg), produced (strategy2 extract pg),
        produced (strategy3 pg), produced (strategy4 extract pg)]"

text \<open>A page none of whose phone buttons carries the bare identifier
  \<^verbatim>\<open>phone:tel:\<close>, with no number after the scheme.\<close>

definition no_bare_scheme :: "page \<Rightarrow> bool" where
  "no_bare_scheme pg =
     (case elements_phone_button pg of
        Some phoneElements \<Rightarrow>
          list_all (\<lambda>e. el_data_item_id e \<noteq> AttrValue ''phone:tel:'') phoneElements
      | None \<Rightarrow> True)"

subsection \<open>Sample pages\<close>

definition el :: "attr \<Rightarrow> attr \<Rightarrow> string option \<Rightarrow> element" where
  "el a b t = \<lparr>el_data_item_id = a, el_aria_label = b, el_text = t\<rparr>"

text \<open>A page whose only phone text is in an ordinary element.\<close>

definition pg_text_only :: page where
  "pg_text_only = \<lparr>elements_phone_button = Some [], elements_aria_label = Some [],
     elements_number_class = Some [],
     elements_all = Some [el AttrAbsent AttrAbsent (Some ''Llamar 222 123 4567'')]\<rparr>"

text \<open>The same page with a phone button whose identifier is the bare scheme.\<close>

definition pg_bare :: page where
  "pg_bare = \<lparr>elements_phone_button = Some [el (AttrValue ''phone:tel:'') AttrAbsent (Some ''Llamar'')], elements_aria_label = Some [],
     elements_number_class = Some [],
     elements_all = Some [el AttrAbsent AttrAbsent (Some ''Llamar 222 123 4567'')]\<rparr>"

section \<open>The batch pipeline\<close>

text \<open>\<^verbatim>\<open>PlaceWithPhone\<close>: the eight columns of the input file and the extracted
  phone.\<close>

record PlaceWithPhone =
  Name :: string
  Address :: string
  Stars :: string
  Reviews :: string
  Phone :: string
  Hours :: string
  Website :: string
  GoogleURL :: string
  ScrapedPhone :: string

definition maxPhoneWorkers :: nat where
  "maxPhoneWorkers = 3"

subsection \<open>\<^verbatim>\<open>readCSV\<close>\<close>

text \<open>The loop over \<^verbatim>\<open>records[1:]\<close>: a row with fewer than eight columns is skipped
  with a warning; \<^verbatim>\<open>ScrapedPhone\<close> keeps its zero value, the empty string.\<close>

fun rows_to_places :: "string list list \<Rightarrow> PlaceWithPhone list" where
  "rows_to_places [] = []"
| "rows_to_places (record # records) =
     (if length record < 8 then rows_to_places records
      else \<lparr>Name = record ! 0, Address = record ! 1, Stars = record ! 2,
             Reviews = record ! 3, Phone = record ! 4, Hours = record ! 5,
             Website = record ! 6, GoogleURL = record ! 7, ScrapedPhone = []\<rparr>
           # rows_to_places records)"

text \<open>The argument is what opening and parsing the file gives: an error or the rows.\<close>

definition readCSV :: "string + string list list \<Rightarrow> string + PlaceWithPhone list" where
  "readCSV file =
     (case file of
        Inl err \<Rightarrow> Inl err
      | Inr records \<Rightarrow>
          if length records < 2 then Inl ''CSV must have at least header and one data row''
          else Inr (rows_to_places (drop 1 records)))"

subsection \<open>\<^verbatim>\<open>processPlacesWithPhones\<close>: one goroutine per record\<close>

text \<open>
  The program points of the goroutine of one record, in the order of its body and then of
  its deferred calls, which run last-registered first: the semaphore receive, the progress
  bar, \<^verbatim>\<open>wg.Done\<close>.
  \<^item> \<open>Unspawned\<close>: the loop of the caller has not reached the record;
  \<^item> \<open>AtAcquire\<close>: before \<^verbatim>\<open>semaphore <- struct{}{}\<close>;
  \<^item> \<open>AtTest\<close>: after the send, before the test of \<^verbatim>\<open>Phone\<close> and \<^verbatim>\<open>GoogleURL\<close>;
  \<^item> \<open>Extracting\<close>: inside \<^verbatim>\<open>ExtractPhoneFromGoogleMapsURL\<close>;
  \<^item> \<open>Extracted phone err\<close>: the call has returned \<open>(phone, err)\<close>;
  \<^item> \<open>Sleeping\<close>: inside \<^verbatim>\<open>time.Sleep(1 * time.Second)\<close>;
  \<^item> \<open>AtRelease\<close>: the body is over, before the deferred \<^verbatim>\<open><-semaphore\<close>;
  \<^item> \<open>AtTick\<close>: before the deferred \<^verbatim>\<open>bar.Add(1)\<close>;
  \<^item> \<open>AtDone\<close>: before the deferred \<^verbatim>\<open>wg.Done()\<close>;
  \<^item> \<open>Finished\<close>.
\<close>

datatype pc =
  Unspawned | AtAcquire | AtTest | Extracting | Extracted string "string option"
  | Sleeping | AtRelease | AtTick | AtDone | Finished

text \<open>
  The shared state: the slice \<^verbatim>\<open>updatedPlaces\<close>, the program point of every goroutine,
  the number of values in the buffered channel \<^verbatim>\<open>semaphore\<close>, the count of the progress
  bar, the counter of the wait group, the index the spawning loop has reached, and whether
  \<^verbatim>\<open>wg.Wait()\<close> has returned.
\<close>

record pool =
  updatedPlaces :: "PlaceWithPhone list"
  pcs :: "pc list"
  semaphore :: nat
  bar :: nat
  wg :: nat
  spawned :: nat
  returned :: bool

definition init_pool :: "PlaceWithPhone list \<Rightarrow> pool" where
  "init_pool places =
     \<lparr>updatedPlaces = places, pcs = replicate (length places) Unspawned,
      semaphore = 0, bar = 0, wg = 0, spawned = 0, returned = False\<rparr>"

text \<open>
  One atomic step of the run:
  \<^item> \<open>Spawn\<close>: the caller's loop does \<^verbatim>\<open>wg.Add(1)\<close> and starts the next goroutine;
  \<^item> \<open>Go i\<close>: goroutine \<open>i\<close> executes the statement at its program point;
  \<^item> \<open>Return i phone err\<close>: the extraction goroutine \<open>i\<close> waits for returns
    \<open>(phone, err)\<close>;
  \<^item> \<open>Wait\<close>: \<^verbatim>\<open>wg.Wait()\<close> returns in the caller.
\<close>

datatype action = Spawn | Go nat | Return nat string "string option" | Wait

text \<open>The test \<^verbatim>\<open>place.Phone == "" && place.GoogleURL != ""\<close>.\<close>

definition eligible :: "PlaceWithPhone \<Rightarrow> bool" where
  "eligible place = (Phone place = [] \<and> GoogleURL place \<noteq> [])"

text \<open>
  The statement at a program point, for goroutine \<open>i\<close>; \<open>None\<close> when the goroutine
  cannot move: a send on the full channel blocks, as does a receive on the empty one, and
  a goroutine inside the extraction moves when the extraction returns. The writes to
  \<^verbatim>\<open>ScrapedPhone\<close> and to the bar are made under the mutex, each in one step. \<open>cap\<close> is
  the capacity of the channel.
\<close>

definition go_step :: "nat \<Rightarrow> nat \<Rightarrow> pool \<Rightarrow> pool option" where
  "go_step cap i s =
     (case pcs s ! i of
        Unspawned \<Rightarrow> None
      | AtAcquire \<Rightarrow>
          if semaphore s < cap
          then Some (s\<lparr>pcs := (pcs s)[i := AtTest], semaphore := semaphore s + 1\<rparr>)
          else None
      | AtTest \<Rightarrow>
          if eligible (updatedPlaces s ! i)
          then Some (s\<lparr>pcs := (pcs s)[i := Extracting]\<rparr>)
          else Some (s\<lparr>pcs := (pcs s)[i := AtRelease]\<rparr>)
      | Extracting \<Rightarrow> None
      | Extracted phone err \<Rightarrow>
          if err = None \<and> phone \<noteq> []
          then Some (s\<lparr>updatedPlaces :=
                          (updatedPlaces s)[i := (updatedPlaces s ! i)\<lparr>ScrapedPhone := phone\<rparr>],
                        pcs := (pcs s)[i := Sleeping]\<rparr>)
          else Some (s\<lparr>pcs := (pcs s)[i := Sleeping]\<rparr>)
      | Sleeping \<Rightarrow> Some (s\<lparr>pcs := (pcs s)[i := AtRelease]\<rparr>)
      | AtRelease \<Rightarrow>
          if 0 < semaphore s
          then Some (s\<lparr>pcs := (pcs s)[i := AtTick], semaphore := semaphore s - 1\<rparr>)
          else None
      | AtTick \<Rightarrow> Some (s\<lparr>pcs := (pcs s)[i := AtDone], bar := bar s + 1\<rparr>)
      | AtDone \<Rightarrow>
          if 0 < wg s
          then Some (s\<lparr>pcs := (pcs s)[i := Finished], wg := wg s - 1\<rparr>)
          else None
      | Finished \<Rightarrow> None)"

fun step :: "nat \<Rightarrow> action \<Rightarrow> pool \<Rightarrow> pool option" where
  "step cap Spawn s =
     (if spawned s < length (pcs s)
      then Some (s\<lparr>pcs := (pcs s)[spawned s := AtAcquire], wg := wg s + 1,
                    spawned := spawned s + 1\<rparr>)
      else None)"
| "step cap (Go i) s = (if i < length (pcs s) then go_step cap i s else None)"
| "step cap (Return i phone err) s =
     (if i < length (pcs s) \<and> pcs s ! i = Extracting
      then Some (s\<lparr>pcs := (pcs s)[i := Extracted phone err]\<rparr>)
      else None)"
| "step cap Wait s =
     (if spawned s = length (pcs s) \<and> wg s = 0 \<and> \<not> returned s
      then Some (s\<lparr>returned := True\<rparr>)
      else None)"

text \<open>A run: the steps of a schedule, one after the other; \<open>None\<close> when the schedule
  asks for a step that cannot be taken.\<close>

fun run :: "nat \<Rightarrow> action list \<Rightarrow> pool \<Rightarrow> pool option" where
  "run cap [] s = Some s"
| "run cap (a # as) s = (case step cap a s of Some s' \<Rightarrow> run cap as s' | None \<Rightarrow> None)"

text \<open>The goroutines that hold a slot: those between the send on the channel and the
  receive from it.\<close>

fun holds_slot :: "pc \<Rightarrow> bool" where
  "holds_slot AtTest = True"
| "holds_slot Extracting = True"
| "holds_slot (Extracted phone err) = True"
| "holds_slot Sleeping = True"
| "holds_slot AtRelease = True"
| "holds_slot _ = False"

text \<open>The goroutines whose enrichment is running.\<close>

fun enriching :: "pc \<Rightarrow> bool" where
  "enriching Extracting = True"
| "enriching (Extracted phone err) = True"
| "enriching _ = False"

text \<open>The goroutines that \<^verbatim>\<open>wg\<close> counts: started and not yet through \<^verbatim>\<open>wg.Done()\<close>.\<close>

fun counted :: "pc \<Rightarrow> bool" where
  "counted Unspawned = False"
| "counted Finished = False"
| "counted _ = True"

text \<open>\<^verbatim>\<open>processPlacesWithPhones\<close> returns \<^verbatim>\<open>updatedPlaces\<close> when \<^verbatim>\<open>wg.Wait()\<close>
  has returned; a schedule that does not get there is a run in which the function has not
  returned.\<close>

definition processPlacesWithPhones :: "action list \<Rightarrow> PlaceWithPhone list \<Rightarrow> PlaceWithPhone list option" where
  "processPlacesWithPhones sched places =
     (case run maxPhoneWorkers sched (init_pool places) of
        Some s \<Rightarrow> if returned s then Some (updatedPlaces s) else None
      | None \<Rightarrow> None)"

subsection \<open>\<^verbatim>\<open>ProcessCSV\<close>\<close>

text \<open>The statistics loop of \<^verbatim>\<open>ProcessCSV\<close>.\<close>

fun count_phones :: "PlaceWithPhone list \<Rightarrow> nat \<Rightarrow> nat" where
  "count_phones [] found = found"
| "count_phones (place # places) found =
     count_phones places (if ScrapedPhone place \<noteq> [] then found + 1 else found)"

text \<open>A record with an extracted phone, with an original phone, with a phone of either
  kind.\<close>

definition has_scraped_phone :: "PlaceWithPhone \<Rightarrow> bool" where
  "has_scraped_phone place = (ScrapedPhone place \<noteq> [])"

definition has_original_phone :: "PlaceWithPhone \<Rightarrow> bool" where
  "has_original_phone place = (Phone place \<noteq> [])"

definition has_phone :: "PlaceWithPhone \<Rightarrow> bool" where
  "has_phone place = (Phone place \<noteq> [] \<or> ScrapedPhone place \<noteq> [])"

text \<open>The two counts \<^verbatim>\<open>ProcessCSV\<close> prints: \<^verbatim>\<open>len(updatedPlaces)\<close> and
  \<^verbatim>\<open>phonesFound\<close>. The percentage it prints is computed from these two.\<close>

record summary =
  totalPlaces :: nat
  phonesFound :: nat

text \<open>
  \<^verbatim>\<open>ProcessCSV\<close>, with what the outside world does as arguments: the outcome of opening
  and parsing the file, the error of \<^verbatim>\<open>NewPhoneScraper\<close> if any, the schedule of the
  worker pool, and the error of \<^verbatim>\<open>saveCSVWithPhones\<close> if any. \<open>Inl\<close> is the error
  returned, \<open>Inr\<close> the statistics printed before \<^verbatim>\<open>return nil\<close>.
\<close>

definition ProcessCSV ::
  "string + string list list \<Rightarrow> string option \<Rightarrow> action list \<Rightarrow> string option
     \<Rightarrow> (string + summary) option" where
  "ProcessCSV file scraper_err sched save_err =
     (case readCSV file of
        Inl err \<Rightarrow> Some (Inl (''error reading CSV: '' @ err))
      | Inr places \<Rightarrow>
          if length places = 0 then Some (Inl ''no places found in CSV'')
          else
            (case scraper_err of
               Some err \<Rightarrow> Some (Inl (''error creating phone scraper: '' @ err))
             | None \<Rightarrow>
                 (case processPlacesWithPhones sched places of
                    None \<Rightarrow> None
                  | Some updated \<Rightarrow>
                      (case save_err of
                         Some err \<Rightarrow> Some (Inl (''error saving updated CSV: '' @ err))
                       | None \<Rightarrow>
                           Some (Inr \<lparr>totalPlaces = length updated,
                                      phonesFound = count_phones updated 0\<rparr>)))))"

subsection \<open>Sample batches\<close>

text \<open>The schedule in which goroutine \<open>i\<close> of an eligible record runs from the send on the
  channel to \<^verbatim>\<open>wg.Done()\<close> with the extraction returning \<open>(phone, err)\<close>, and the one
  for a record that is not eligible.\<close>

definition job :: "nat \<Rightarrow> string \<Rightarrow> string option \<Rightarrow> action list" where
  "job i phone err =
     [Go i, Go i, Return i phone err, Go i, Go i, Go i, Go i, Go i]"

definition skip_job :: "nat \<Rightarrow> action list" where
  "skip_job i = [Go i, Go i, Go i, Go i, Go i]"

definition row :: "string \<Rightarrow> string \<Rightarrow> string \<Rightarrow> string list" where
  "row name phone url = [name, ''addr'', ''4.5'', ''10'', phone, ''9-18'', ''web'', url]"

definition header :: "string list" where
  "header = [''Name'', ''Address'', ''Stars'', ''Reviews'', ''Phone'', ''Hours'', ''Website'',
     ''GoogleURL'']"

text \<open>Five records: two have an original phone, three are dispatched; two extractions
  succeed and one times out.\<close>

definition five_rows :: "string list list" where
  "five_rows =
     [header, row ''a'' ''222 111 1111'' ''u0'', row ''b'' [] ''u1'', row ''c'' [] ''u2'',
      row ''d'' ''222 444 4444'' ''u3'', row ''e'' [] ''u4'']"

definition five_sched :: "action list" where
  "five_sched =
     [Spawn, Spawn, Spawn, Spawn, Spawn]
     @ skip_job 0 @ job 1 ''222 123 4567'' None @ job 2 [] (Some ''timeout finding phone'')
     @ skip_job 3 @ job 4 ''222 765 4321'' None @ [Wait]"

text \<open>One record, which has an original phone: no record is eligible.\<close>

definition one_row :: "string list list" where
  "one_row = [header, row ''a'' ''222 111 1111'' ''u0'']"

definition one_sched :: "action list" where
  "one_sched = [Spawn] @ skip_job 0 @ [Wait]"

text \<open>Four eligible records and the schedule in which the first three goroutines reach
  the pacing delay.\<close>

definition four_places :: "PlaceWithPhone list" where
  "four_places =
     rows_to_places [row ''a'' [] ''u0'', row ''b'' [] ''u1'', row ''c'' [] ''u2'',
                     row ''d'' [] ''u3'']"

definition to_sleep :: "nat \<Rightarrow> action list" where
  "to_sleep i = [Go i, Go i, Return i ''222 123 4567'' None, Go i]"

definition pacing_sched :: "action list" where
  "pacing_sched = [Spawn, Spawn, Spawn, Spawn] @ to_sleep 0 @ to_sleep 1 @ to_sleep 2"


subsection \<open>The invariant of the worker pool\<close>

text \<open>
  What every state of a run satisfies: one program point per record; the channel holds one
  value per goroutine between its send and its receive, and never more than its capacity;
  the wait group counts the goroutines started and not finished; the records the loop has
  not reached have no goroutine.
\<close>

definition pool_inv :: "nat \<Rightarrow> pool \<Rightarrow> bool" where
  "pool_inv cap s =
     (length (pcs s) = length (updatedPlaces s)
      \<and> semaphore s = length (filter holds_slot (pcs s))
      \<and> semaphore s \<le> cap
      \<and> wg s = length (filter counted (pcs s))
      \<and> spawned s \<le> length (pcs s)
      \<and> list_all (\<lambda>p. p = Unspawned) (drop (spawned s) (pcs s)))"

text \<open>The goroutines past \<^verbatim>\<open>bar.Add(1)\<close>, and the records the spawning loop has
  reached.\<close>

fun ticked :: "pc \<Rightarrow> bool" where
  "ticked AtDone = True"
| "ticked Finished = True"
| "ticked _ = False"

fun started :: "pc \<Rightarrow> bool" where
  "started Unspawned = False"
| "started _ = True"

fun pacing :: "pc \<Rightarrow> bool" where
  "pacing Sleeping = True"
| "pacing _ = False"

text \<open>The bar counts the goroutines past their tick; the loop index counts the goroutines
  started; and \<^verbatim>\<open>wg.Wait()\<close> has returned only with every goroutine started and the
  counter at zero.\<close>

definition tick_inv :: "pool \<Rightarrow> bool" where
  "tick_inv s =
     (bar s = length (filter ticked (pcs s))
      \<and> spawned s = length (filter started (pcs s))
      \<and> (if returned s then wg s = 0 \<and> spawned s = length (pcs s) else True))"

text \<open>Relative to the records the pool was started on: a record differs from the initial
  one in \<^verbatim>\<open>ScrapedPhone\<close> at most, and the record of a goroutine that is not eligible
  is the initial one, its goroutine being nowhere in the extraction or the delay.\<close>

definition frame_ok :: "PlaceWithPhone \<Rightarrow> PlaceWithPhone \<Rightarrow> pc \<Rightarrow> bool" where
  "frame_ok place0 place p =
     (place\<lparr>ScrapedPhone := []\<rparr> = place0\<lparr>ScrapedPhone := []\<rparr>
      \<and> (if eligible place0 then True
         else place = place0 \<and> \<not> enriching p \<and> \<not> pacing p))"

definition frame_inv :: "PlaceWithPhone list \<Rightarrow> pool \<Rightarrow> bool" where
  "frame_inv places s =
     (length (updatedPlaces s) = length places
      \<and> length (pcs s) = length places
      \<and> list_all (\<lambda>i. frame_ok (places ! i) (updatedPlaces s ! i) (pcs s ! i))
           [0..<length places])"


text \<open>The state the schedule \<open>pacing_sched\<close> leads to.\<close>

definition pacing_state :: pool where
  "pacing_state =
     \<lparr>updatedPlaces =
        map (\<lambda>p. p\<lparr>ScrapedPhone := ''222 123 4567''\<rparr>) (take 3 four_places)
        @ drop 3 four_places,
      pcs = [Sleeping, Sleeping, Sleeping, AtAcquire], semaphore = 3, bar = 0, wg = 4,
      spawned = 4, returned = False\<rparr>"

text \<open>The records of \<open>five_rows\<close> and the state the schedule \<open>five_sched\<close> leads
  to.\<close>

definition five_places :: "PlaceWithPhone list" where
  "five_places = rows_to_places (drop 1 five_rows)"

definition five_updated :: "PlaceWithPhone list" where
  "five_updated =
     [five_places ! 0, (five_places ! 1)\<lparr>ScrapedPhone := ''222 123 4567''\<rparr>, five_places ! 2,
      five_places ! 3, (five_places ! 4)\<lparr>ScrapedPhone := ''222 765 4321''\<rparr>]"

definition five_state :: pool where
  "five_state =
     \<lparr>updatedPlaces = five_updated,
      pcs = [Finished, Finished, Finished, Finished, Finished], semaphore = 0, bar = 5,
      wg = 0, spawned = 5, returned = True\<rparr>"


text \<open>The records of \<open>one_row\<close> and the state the schedule \<open>one_sched\<close> leads to.\<close>

definition one_places :: "PlaceWithPhone list" where
  "one_places = rows_to_places (drop 1 one_row)"

definition one_state :: pool where
  "one_state =
     \<lparr>updatedPlaces = one_places, pcs = [Finished], semaphore = 0, bar = 1, wg = 0,
      spawned = 1, returned = True\<rparr>"


section \<open>One extraction job: \<^verbatim>\<open>ExtractPhoneFromGoogleMapsURL\<close>\<close>

text \<open>
  The job of the batch scraper creates a context with the deadline \<^verbatim>\<open>phoneTimeout\<close>,
  opens a page, navigates, waits for the page to be stable and calls
  \<^verbatim>\<open>findPhoneWithTimeout\<close>, which starts the lookup in a goroutine of its own and waits in
  a \<^verbatim>\<open>select\<close> for the channel \<^verbatim>\<open>done\<close>, the channel \<^verbatim>\<open>errChan\<close> or
  \<^verbatim>\<open>ctx.Done()\<close>. The context is read by that \<^verbatim>\<open>select\<close> only.

  The program points of the job: navigating and waiting for the page; at the
  \<^verbatim>\<open>select\<close>; returned with a phone and an error.
\<close>

datatype job_pc = Navigating | AtSelect | Reported string "string option"

text \<open>The lookup goroutine: not started, running \<^verbatim>\<open>findPhoneNumber\<close>, or returned from
  it with a result and gone after its send.\<close>

datatype lookup_pc = NotStarted | Running | Returned string

record job =
  caller :: job_pc
  ctx_done :: bool
  lookup :: lookup_pc
  done_ch :: "string list"
  err_ch :: "string list"

definition init_job :: job where
  "init_job =
     \<lparr>caller = Navigating, ctx_done = False, lookup = NotStarted, done_ch = [], err_ch = []\<rparr>"

text \<open>The three cases of the \<^verbatim>\<open>select\<close>.\<close>

datatype select_case = CaseDone | CaseErr | CaseCtx

text \<open>
  What can happen, one event at a time:
  \<^item> \<open>Deadline\<close>: the timer of the context fires and \<^verbatim>\<open>ctx.Done()\<close> is closed;
  \<^item> \<open>NavigateFails e\<close>: \<^verbatim>\<open>page.Navigate\<close> returns the error \<open>e\<close>, and the job
    returns it wrapped;
  \<^item> \<open>PageReady\<close>: navigation, \<^verbatim>\<open>MustWaitStable\<close> and the two-second sleep are over;
    \<^verbatim>\<open>findPhoneWithTimeout\<close> makes its two channels of capacity 1 and starts the lookup;
  \<^item> \<open>LocatorReturns phone\<close>: \<^verbatim>\<open>findPhoneNumber\<close> returns \<open>phone\<close> in the lookup
    goroutine, which sends it on \<^verbatim>\<open>done\<close> when it is not empty and an error on
    \<^verbatim>\<open>errChan\<close> when it is; it is the only send on either channel, so it never blocks;
  \<^item> \<open>Select c\<close>: the \<^verbatim>\<open>select\<close> proceeds with case \<open>c\<close>, which must be ready. When
    several cases are ready Go chooses one of them; a \<^verbatim>\<open>select\<close> that was blocked
    proceeds with the case that woke it, which is one of the behaviours here.
  \<open>None\<close> means that the event cannot happen in the state.
\<close>

datatype job_event =
  Deadline | NavigateFails string | PageReady | LocatorReturns string | Select select_case

fun job_step :: "job_event \<Rightarrow> job \<Rightarrow> job option" where
  "job_step Deadline s = (if ctx_done s then None else Some (s\<lparr>ctx_done := True\<rparr>))"
| "job_step (NavigateFails e) s =
     (if caller s = Navigating
      then Some (s\<lparr>caller := Reported [] (Some (''failed to navigate to URL: '' @ e))\<rparr>)
      else None)"
| "job_step PageReady s =
     (if caller s = Navigating then Some (s\<lparr>caller := AtSelect, lookup := Running\<rparr>)
      else None)"
| "job_step (LocatorReturns phone) s =
     (if lookup s = Running then
        (if phone \<noteq> []
         then Some (s\<lparr>lookup := Returned phone, done_ch := done_ch s @ [phone]\<rparr>)
         else Some (s\<lparr>lookup := Returned phone, err_ch := err_ch s @ [''no phone found'']\<rparr>))
      else None)"
| "job_step (Select CaseDone) s =
     (if caller s = AtSelect then
        (case done_ch s of
           [] \<Rightarrow> None
         | phone # rest \<Rightarrow> Some (s\<lparr>caller := Reported phone None, done_ch := rest\<rparr>))
      else None)"
| "job_step (Select CaseErr) s =
     (if caller s = AtSelect then
        (case err_ch s of
           [] \<Rightarrow> None
         | err # rest \<Rightarrow> Some (s\<lparr>caller := Reported [] (Some err), err_ch := rest\<rparr>))
      else None)"
| "job_step (Select CaseCtx) s =
     (if caller s = AtSelect \<and> ctx_done s
      then Some (s\<lparr>caller := Reported [] (Some ''timeout finding phone'')\<rparr>)
      else None)"

fun job_run :: "job_event list \<Rightarrow> job \<Rightarrow> job option" where
  "job_run [] s = Some s"
| "job_run (e # es) s = (case job_step e s of Some s' \<Rightarrow> job_run es s' | None \<Rightarrow> None)"

text \<open>What the job reports for what the lookup returned.\<close>

definition locator_report :: "string \<Rightarrow> job_pc" where
  "locator_report phone =
     (if phone \<noteq> [] then Reported phone None else Reported [] (Some ''no phone found''))"

text \<open>The channels hold what the lookup has sent and the caller has not received.\<close>

definition job_inv :: "job \<Rightarrow> bool" where
  "job_inv s =
     (case lookup s of
        NotStarted \<Rightarrow> caller s \<noteq> AtSelect \<and> done_ch s = [] \<and> err_ch s = []
      | Running \<Rightarrow> caller s \<noteq> Navigating \<and> done_ch s = [] \<and> err_ch s = []
      | Returned phone \<Rightarrow>
          caller s \<noteq> Navigating
          \<and> (if caller s = AtSelect
              then (if phone \<noteq> [] then done_ch s = [phone] \<and> err_ch s = []
                    else done_ch s = [] \<and> err_ch s = [''no phone found''])
              else True))"

section \<open>The progress broadcaster\<close>

text \<open>
  The registered observers are the keys of the map \<^verbatim>\<open>clients\<close>; a connection is
  modelled by a number. Beside the map, the state has the connections whose handler
  \<^verbatim>\<open>handleWebSocket\<close> is in its read loop.
\<close>

record broadcaster =
  clients :: "nat \<rightharpoonup> bool"
  handlers :: "nat set"

definition init_broadcaster :: broadcaster where
  "init_broadcaster = \<lparr>clients = Map.empty, handlers = {}\<rparr>"

text \<open>
  The steps of the two functions that touch the map:
  \<^item> \<open>Connect c\<close>: \<^verbatim>\<open>handleWebSocket\<close> has upgraded a new connection \<open>c\<close> and does
    \<^verbatim>\<open>clients[conn] = true\<close>;
  \<^item> \<open>ReadOK c\<close>: \<^verbatim>\<open>conn.ReadMessage()\<close> returns a message in the handler of \<open>c\<close>,
    which reads on;
  \<^item> \<open>ReadError c\<close>: \<^verbatim>\<open>conn.ReadMessage()\<close> returns an error in the handler of \<open>c\<close>,
    which does \<^verbatim>\<open>delete(clients, conn)\<close> and leaves its loop;
  \<^item> \<open>WriteOK c\<close>: in the loop of \<^verbatim>\<open>handleMessages\<close> over \<^verbatim>\<open>clients\<close>,
    \<^verbatim>\<open>client.WriteJSON(msg)\<close> succeeds for the client \<open>c\<close>;
  \<^item> \<open>WriteError c\<close>: it fails, and the loop closes the client and does
    \<^verbatim>\<open>delete(clients, client)\<close>.
\<close>

datatype bc_event = Connect nat | ReadOK nat | ReadError nat | WriteOK nat | WriteError nat

fun bc_step :: "bc_event \<Rightarrow> broadcaster \<Rightarrow> broadcaster option" where
  "bc_step (Connect c) s =
     (if c \<in> handlers s \<or> c \<in> dom (clients s) then None
      else Some (s\<lparr>clients := (clients s)(c \<mapsto> True), handlers := insert c (handlers s)\<rparr>))"
| "bc_step (ReadOK c) s = (if c \<in> handlers s then Some s else None)"
| "bc_step (ReadError c) s =
     (if c \<in> handlers s
      then Some (s\<lparr>clients := (clients s)(c := None), handlers := handlers s - {c}\<rparr>)
      else None)"
| "bc_step (WriteOK c) s = (if c \<in> dom (clients s) then Some s else None)"
| "bc_step (WriteError c) s =
     (if c \<in> dom (clients s) then Some (s\<lparr>clients := (clients s)(c := None)\<rparr>) else None)"

fun bc_run :: "bc_event list \<Rightarrow> broadcaster \<Rightarrow> broadcaster option" where
  "bc_run [] s = Some s"
| "bc_run (e # es) s = (case bc_step e s of Some s' \<Rightarrow> bc_run es s' | None \<Rightarrow> None)"

text \<open>The observer \<open>c\<close> is in the registered set.\<close>

definition registered :: "nat \<Rightarrow> broadcaster \<Rightarrow> bool" where
  "registered c s = (c \<in> dom (clients s))"

text \<open>The broadcaster with the one observer 1 connected, and after that observer's
  handler has left.\<close>

definition one_client :: broadcaster where
  "one_client = \<lparr>clients = [1 \<mapsto> True], handlers = {1}\<rparr>"

definition client_gone :: broadcaster where
  "client_gone = \<lparr>clients = Map.empty, handlers = {}\<rparr>"

text \<open>
  The schedule in which the caller starts every goroutine and the goroutines then run one
  after the other, each from its send on the channel to \<^verbatim>\<open>wg.Done()\<close>, the extraction
  of record \<open>i\<close> returning \<open>outcome i\<close>; then \<^verbatim>\<open>wg.Wait()\<close> returns.
\<close>

definition worker_sched ::
  "(nat \<Rightarrow> string \<times> string option) \<Rightarrow> PlaceWithPhone list \<Rightarrow> nat \<Rightarrow> action list" where
  "worker_sched outcome places i =
     (if eligible (places ! i) then job i (fst (outcome i)) (snd (outcome i)) else skip_job i)"

definition seq_sched ::
  "(nat \<Rightarrow> string \<times> string option) \<Rightarrow> PlaceWithPhone list \<Rightarrow> action list" where
  "seq_sched outcome places =
     replicate (length places) Spawn
     @ concat (map (worker_sched outcome places) [0..<length places])
     @ [Wait]"

section \<open>Properties of the normalizer\<close>

lemma clean_idem: "clean (clean s) = clean s"
  by (simp add: clean_def)

lemma clean_append: "clean (a @ b) = clean a @ clean b"
  by (simp add: clean_def)

lemma clean_take_drop: "clean (take n s) @ clean (drop n s) = clean s"
  by (metis append_take_drop_id clean_append)

lemma clean_fixed_take: "clean s = s \<Longrightarrow> clean (take n s) = take n s"
proof -
  assume "clean s = s"
  then have "\<forall>c \<in> set s. \<not> is_sep c"
    unfolding clean_def by (metis (mono_tags, lifting) filter_id_conv)
  then have "\<forall>c \<in> set (take n s). \<not> is_sep c"
    by (meson in_set_takeD)
  then show ?thesis
    unfolding clean_def by simp
qed

lemma clean_fixed_drop: "clean s = s \<Longrightarrow> clean (drop n s) = drop n s"
proof -
  assume "clean s = s"
  then have "\<forall>c \<in> set s. \<not> is_sep c"
    unfolding clean_def by (metis (mono_tags, lifting) filter_id_conv)
  then have "\<forall>c \<in> set (drop n s). \<not> is_sep c"
    by (meson in_set_dropD)
  then show ?thesis
    unfolding clean_def by simp
qed

lemma clean_space: "clean '' '' = []"
  by (simp add: clean_def is_sep_def is_ws_def)

lemma clean_group334: "clean s = s \<Longrightarrow> clean (group334 s) = s"
proof -
  assume fx: "clean s = s"
  have "clean (group334 s) = take 3 s @ take 3 (drop 3 s) @ drop 6 s"
    unfolding group334_def
    by (simp only: clean_append clean_space clean_fixed_take [OF fx]
        clean_fixed_take [OF clean_fixed_drop [OF fx]] clean_fixed_drop [OF fx] append_Nil)
  also have "\<dots> = s"
    by (metis append_take_drop_id numeral_Bit0 numeral_plus_numeral take_add append.assoc)
  finally show ?thesis .
qed

lemma formatPhone_group:
  assumes fx: "clean c = c" and len: "length c = 10"
  shows "formatPhone (group334 c) = group334 c"
proof -
  have cl: "clean (group334 c) = c" by (rule clean_group334 [OF fx])
  show ?thesis
    unfolding formatPhone_def Let_def cl
    using len by (simp add: TrimPrefix_def)
qed

lemma formatPhone_cases:
  obtains (grouped) c where "clean c = c" "length c = 10" "formatPhone x = group334 c"
  | (same) "formatPhone x = x"
proof -
  let ?c = "clean x"
  have fc: "clean ?c = ?c" by (rule clean_idem)
  show ?thesis
  proof (cases "HasPrefix ?c ''+52''")
    case True
    show ?thesis
    proof (cases "length (TrimPrefix ?c ''+52'') = 10")
      case l: True
      have "clean (TrimPrefix ?c ''+52'') = TrimPrefix ?c ''+52''"
        using True by (simp add: TrimPrefix_def clean_fixed_drop [OF fc])
      moreover have "formatPhone x = group334 (TrimPrefix ?c ''+52'')"
        using True l by (simp add: formatPhone_def Let_def)
      ultimately show ?thesis using l grouped by blast
    next
      case False
      then have "formatPhone x = x"
        using True by (simp add: formatPhone_def Let_def)
      then show ?thesis by (rule same)
    qed
  next
    case False
    show ?thesis
    proof (cases "length ?c = 10 \<and> \<not> HasPrefix ?c ''+''")
      case True
      then have "formatPhone x = group334 ?c"
        using False by (simp add: formatPhone_def Let_def)
      then show ?thesis using fc True grouped by blast
    next
      case False
      with \<open>\<not> HasPrefix ?c ''+52''\<close> have "formatPhone x = x"
        by (auto simp add: formatPhone_def Let_def)
      then show ?thesis by (rule same)
    qed
  qed
qed

lemma digit_not_sep: "is_digit c \<Longrightarrow> \<not> is_sep c"
  by (auto simp: is_digit_def is_sep_def is_ws_def)

lemma digit_not_plus: "is_digit c \<Longrightarrow> c \<noteq> CHR ''+''"
  by (auto simp: is_digit_def)

lemma clean_digits: "list_all is_digit s \<Longrightarrow> clean s = s"
  by (induction s) (auto simp: clean_def digit_not_sep)

text \<open>
  \<^bold>\<open>C3.\<close> The normalizer is idempotent: for every input string \<open>x\<close>, normalizing the
  normalized string gives the normalized string again. The result is either the input
  itself or a 3-3-4 grouping of ten separator-free bytes, which a second pass cleans back
  to the same ten bytes and groups the same way (or, when they start with \<^verbatim>\<open>+\<close>,
  returns as they are).
\<close>

theorem formatPhone_idempotent: "formatPhone (formatPhone x) = formatPhone x"
proof (cases x rule: formatPhone_cases)
  case (grouped c)
  then show ?thesis by (simp add: formatPhone_group)
next
  case same
  then show ?thesis by simp
qed

text \<open>
  \<^bold>\<open>C4.\<close> For ten digits \<open>d1 \<dots> d10\<close>, \<^verbatim>\<open>formatPhone\<close> of the bare ten-digit string is
  the three groups \<open>d1d2d3 d4d5d6 d7d8d9d10\<close> separated by single spaces, and
  \<^verbatim>\<open>formatPhone\<close> of \<^verbatim>\<open>+52\<close> followed by the same ten digits is the same string:
  the prefix is stripped.
\<close>

theorem formatPhone_ten_digits:
  assumes "list_all is_digit [d1, d2, d3, d4, d5, d6, d7, d8, d9, d10]"
  shows "formatPhone [d1, d2, d3, d4, d5, d6, d7, d8, d9, d10]
           = [d1, d2, d3, CHR '' '', d4, d5, d6, CHR '' '', d7, d8, d9, d10]
       \<and> formatPhone (''+52'' @ [d1, d2, d3, d4, d5, d6, d7, d8, d9, d10])
           = [d1, d2, d3, CHR '' '', d4, d5, d6, CHR '' '', d7, d8, d9, d10]"
proof -
  let ?d = "[d1, d2, d3, d4, d5, d6, d7, d8, d9, d10]"
  have cl: "clean ?d = ?d" by (rule clean_digits [OF assms])
  have np: "d1 \<noteq> CHR ''+''" using assms by (simp add: digit_not_plus)
  have cl52: "clean (''+52'' @ ?d) = ''+52'' @ ?d"
    unfolding clean_append cl by (simp add: clean_def is_sep_def is_ws_def)
  have bare: "formatPhone ?d = group334 ?d"
    unfolding formatPhone_def Let_def cl using np by (simp add: HasPrefix_def)
  have pre: "formatPhone (''+52'' @ ?d) = group334 ?d"
    unfolding formatPhone_def Let_def cl52 by (simp add: HasPrefix_def TrimPrefix_def)
  show ?thesis
    unfolding bare pre by (simp add: group334_def)
qed

theorem formatPhone_ten_digits_witness:
  "list_all is_digit ''2221234567''
   \<and> formatPhone ''2221234567'' = ''222 123 4567''
   \<and> formatPhone ''+522221234567'' = ''222 123 4567''"
  using formatPhone_ten_digits [of "CHR ''2''" "CHR ''2''" "CHR ''2''" "CHR ''1''" "CHR ''2''"
      "CHR ''3''" "CHR ''4''" "CHR ''5''" "CHR ''6''" "CHR ''7''"]
  by (simp add: is_digit_def)

section \<open>Properties of the text-pattern matcher\<close>

lemma MatchWhole_skip: "MatchWhole re m \<Longrightarrow> MatchWhole (Opt k # re) m"
  by (cases m) auto

lemma match_here_sound: "match_here re s = Some m \<Longrightarrow> MatchWhole re m"
proof (induction re s arbitrary: m rule: match_here.induct)
  case (5 k re c cs)
  show ?case
  proof (cases "in_cls k c")
    case True
    show ?thesis
    proof (cases "match_here re cs")
      case None
      with 5 True show ?thesis by (simp add: MatchWhole_skip)
    next
      case (Some m')
      with 5 True show ?thesis by auto
    qed
  next
    case False
    with 5 show ?thesis by (simp add: MatchWhole_skip)
  qed
qed (auto split: if_splits simp: MatchWhole_skip)

lemma FindString_sound: "FindString re s \<noteq> [] \<Longrightarrow> MatchWhole re (FindString re s)"
  by (induction s) (auto split: option.splits dest: match_here_sound)

lemma phone_atom_One: "phone_atom (One k) \<Longrightarrow> in_cls k c \<Longrightarrow> is_digit c"
  by (cases k) auto

lemma phone_atom_Opt: "phone_atom (Opt k) \<Longrightarrow> in_cls k c \<Longrightarrow> is_sep c"
  by (cases k) (auto simp: is_sep_def)

lemma clean_Cons_digit: "is_digit c \<Longrightarrow> clean (c # cs) = c # clean cs"
  by (simp add: clean_def digit_not_sep)

lemma clean_Cons_sep: "is_sep c \<Longrightarrow> clean (c # cs) = clean cs"
  by (simp add: clean_def)

lemma phone_shape:
  "MatchWhole re m \<Longrightarrow> list_all phone_atom re \<Longrightarrow>
     list_all is_digit (clean m) \<and> length (clean m) = length (filter is_One re)"
proof (induction re m rule: MatchWhole.induct)
  case (1 s)
  then show ?case by (simp add: clean_def)
next
  case (2 k re)
  then show ?case by simp
next
  case (3 k re c cs)
  then have d: "is_digit c" by (auto dest: phone_atom_One)
  from 3 show ?case by (simp add: clean_Cons_digit [OF d] d)
next
  case (4 k re)
  then show ?case by simp
next
  case (5 k re c cs)
  from 5(3) consider "in_cls k c" "MatchWhole re cs" | "MatchWhole re (c # cs)" by auto
  then show ?case
  proof cases
    case 1
    then have s: "is_sep c" using 5(4) by (auto dest: phone_atom_Opt)
    from 1 5 show ?thesis by (simp add: clean_Cons_sep [OF s])
  next
    case 2
    with 5 show ?thesis by simp
  qed
qed

lemma MatchWhole_last: "MatchWhole (re @ [One k]) m \<Longrightarrow> m \<noteq> [] \<and> in_cls k (last m)"
proof (induction re arbitrary: m)
  case Nil
  then show ?case by (cases m) auto
next
  case (Cons a re)
  show ?case
  proof (cases a)
    case (One j)
    with Cons show ?thesis by (cases m) auto
  next
    case (Opt j)
    with Cons.prems have "MatchWhole (Opt j # (re @ [One k])) m" by simp
    then consider (take) c cs where "m = c # cs" "MatchWhole (re @ [One k]) cs"
      | (skip) "MatchWhole (re @ [One k]) m"
      by (cases m) auto
    then show ?thesis
    proof cases
      case take
      with Cons.IH [of cs] show ?thesis by simp
    next
      case skip
      with Cons.IH [of m] show ?thesis by simp
    qed
  qed
qed

lemma HasPrefix_hd: "w \<noteq> [] \<Longrightarrow> hd w \<noteq> c \<Longrightarrow> \<not> HasPrefix (c # cs) w"
  by (cases w) (auto simp: HasPrefix_def)

lemma rune_len_0: "\<forall>w \<in> set runes. w \<noteq> [] \<and> hd w \<noteq> c \<Longrightarrow> rune_len runes (c # cs) = 0"
proof -
  assume "\<forall>w \<in> set runes. w \<noteq> [] \<and> hd w \<noteq> c"
  then have "find (HasPrefix (c # cs)) runes = None"
    by (simp add: find_None_iff HasPrefix_hd)
  then show ?thesis by (simp add: rune_len_def)
qed

lemma space_lead: "w \<in> set space_runes \<Longrightarrow> w \<noteq> [] \<and> hd w \<in> set [CHR 0x09, CHR 0x0A, CHR 0x0B, CHR 0x0C, CHR 0x0D, CHR 0x20, CHR 0xC2, CHR 0xE1, CHR 0xE2, CHR 0xE3]"
  unfolding space_runes_def by fastforce

lemma space_trail: "w \<in> set (map rev space_runes) \<Longrightarrow> w \<noteq> [] \<and> hd w \<in> set [CHR 0x09, CHR 0x0A, CHR 0x0B, CHR 0x0C, CHR 0x0D, CHR 0x20, CHR 0x85, CHR 0xA0, CHR 0x80, CHR 0x81, CHR 0x82, CHR 0x83, CHR 0x84, CHR 0x86, CHR 0x87, CHR 0x88, CHR 0x89, CHR 0x8A, CHR 0xA8, CHR 0xA9, CHR 0xAF, CHR 0x9F]"
  unfolding space_runes_def by fastforce

lemma digit_set: "is_digit c \<or> c = CHR ''+'' \<Longrightarrow> c \<notin> set [CHR 0x09, CHR 0x0A, CHR 0x0B, CHR 0x0C, CHR 0x0D, CHR 0x20, CHR 0xC2, CHR 0xE1, CHR 0xE2, CHR 0xE3]"
  unfolding is_digit_def by auto

lemma digit_set2: "is_digit c \<Longrightarrow> c \<notin> set [CHR 0x09, CHR 0x0A, CHR 0x0B, CHR 0x0C, CHR 0x0D, CHR 0x20, CHR 0x85, CHR 0xA0, CHR 0x80, CHR 0x81, CHR 0x82, CHR 0x83, CHR 0x84, CHR 0x86, CHR 0x87, CHR 0x88, CHR 0x89, CHR 0x8A, CHR 0xA8, CHR 0xA9, CHR 0xAF, CHR 0x9F]"
  unfolding is_digit_def by auto

lemma rune_len_front: "is_digit c \<or> c = CHR ''+'' \<Longrightarrow> rune_len space_runes (c # cs) = 0"
  by (rule rune_len_0) (metis space_lead digit_set)

lemma rune_len_back: "is_digit c \<Longrightarrow> rune_len (map rev space_runes) (c # cs) = 0"
  by (rule rune_len_0) (metis space_trail digit_set2)

lemma TrimSpace_phone:
  assumes "m \<noteq> []" "is_digit (hd m) \<or> hd m = CHR ''+''" "is_digit (last m)"
  shows "TrimSpace m = m"
proof -
  obtain c cs where m: "m = c # cs" using assms(1) by (cases m) auto
  have l: "TrimLeft m = m"
    using assms(2) unfolding m TrimLeft_def by (simp add: rune_len_front)
  obtain d ds where r: "rev m = d # ds" using assms(1) by (cases "rev m") auto
  then have "d = last m" by (metis assms(1) last_rev list.sel(1) rev_rev_ident hd_rev)
  then have "trim_front (map rev space_runes) (rev m) = rev m"
    using assms(3) unfolding r by (simp add: rune_len_back)
  then show ?thesis
    unfolding TrimSpace_def l TrimRight_def by simp
qed

lemma opt_digits: "list_all is_digit d \<Longrightarrow> length d \<le> n \<Longrightarrow> MatchWhole (replicate n (Opt Digit)) d"
proof (induction n arbitrary: d)
  case 0
  then show ?case by simp
next
  case (Suc n)
  then show ?case by (cases d) auto
qed

lemma one_digits:
  "list_all is_digit d \<Longrightarrow> n \<le> length d \<Longrightarrow>
     MatchWhole (replicate n (One Digit) @ re) d = MatchWhole re (drop n d)"
proof (induction n arbitrary: d)
  case 0
  then show ?case by simp
next
  case (Suc n)
  then show ?case by (cases d) auto
qed

lemma isPhoneNumber_digits:
  assumes "list_all is_digit (clean t)" "10 \<le> length (clean t)" "length (clean t) \<le> 15"
  shows "isPhoneNumber t"
proof -
  let ?d = "clean t"
  obtain c cs where d: "?d = c # cs" using assms(2) by (cases ?d) auto
  have "c \<noteq> CHR ''+''" using assms(1) d by (simp add: digit_not_plus)
  have "MatchWhole (replicate 10 (One Digit) @ replicate 5 (Opt Digit)) ?d"
    using assms by (simp add: one_digits opt_digits list_all_iff in_set_dropD)
  then have "MatchWhole phonePattern ?d"
    unfolding phonePattern_def by (simp add: d)
  then show ?thesis by (simp add: isPhoneNumber_def)
qed

lemma ten_shape:
  assumes "MatchWhole (replicate 3 (One Digit) @ [Opt k] @ replicate 3 (One Digit) @ [Opt k] @ replicate 4 (One Digit)) m"
    and "phone_atom (Opt k)"
  shows "list_all is_digit (clean m) \<and> length (clean m) = 10 \<and> m \<noteq> [] \<and> is_digit (hd m) \<and> is_digit (last m)"
proof -
  let ?re = "replicate 3 (One Digit) @ [Opt k] @ replicate 3 (One Digit) @ [Opt k] @ replicate 4 (One Digit)"
  have pa: "list_all phone_atom ?re" using assms(2) by (simp add: list_all_iff)
  have cnt: "length (filter is_One ?re) = 10" by simp
  have sh: "list_all is_digit (clean m) \<and> length (clean m) = 10"
    using phone_shape [OF assms(1) pa] cnt by simp
  have "?re = (replicate 3 (One Digit) @ [Opt k] @ replicate 3 (One Digit) @ [Opt k] @ replicate 3 (One Digit)) @ [One Digit]"
    by (simp add: numeral_eq_Suc replicate_append_same)
  then have la: "m \<noteq> [] \<and> in_cls Digit (last m)"
    using MatchWhole_last assms(1) by metis
  have "?re = One Digit # (replicate 2 (One Digit) @ [Opt k] @ replicate 3 (One Digit) @ [Opt k] @ replicate 4 (One Digit))"
    by (simp add: numeral_eq_Suc)
  then have "is_digit (hd m)"
    using assms(1) la by (cases m) auto
  with sh la show ?thesis by simp
qed

lemma tenDigit_result:
  assumes "FindString tenDigitRegex text \<noteq> []"
  shows "isPhoneNumber (TrimSpace (FindString tenDigitRegex text))"
proof -
  let ?m = "FindString tenDigitRegex text"
  have "MatchWhole tenDigitRegex ?m" by (rule FindString_sound [OF assms])
  then have sh: "list_all is_digit (clean ?m) \<and> length (clean ?m) = 10 \<and> ?m \<noteq> [] \<and> is_digit (hd ?m) \<and> is_digit (last ?m)"
    using ten_shape [of Ws ?m] by (simp add: tenDigitRegex_def)
  then have "TrimSpace ?m = ?m" by (simp add: TrimSpace_phone)
  moreover have "isPhoneNumber ?m" using sh by (simp add: isPhoneNumber_digits)
  ultimately show ?thesis by simp
qed

lemma general_result:
  assumes "FindString generalPhoneRegex text \<noteq> []"
  shows "isPhoneNumber (TrimSpace (FindString generalPhoneRegex text))"
proof -
  let ?m = "FindString generalPhoneRegex text"
  have "MatchWhole generalPhoneRegex ?m" by (rule FindString_sound [OF assms])
  then have sh: "list_all is_digit (clean ?m) \<and> length (clean ?m) = 10 \<and> ?m \<noteq> [] \<and> is_digit (hd ?m) \<and> is_digit (last ?m)"
    using ten_shape [of WsHyphen ?m] by (simp add: generalPhoneRegex_def)
  then have "TrimSpace ?m = ?m" by (simp add: TrimSpace_phone)
  moreover have "isPhoneNumber ?m" using sh by (simp add: isPhoneNumber_digits)
  ultimately show ?thesis by simp
qed

lemma clean_Cons_keep: "\<not> is_sep c \<Longrightarrow> clean (c # cs) = c # clean cs"
  by (simp add: clean_def)

lemma MatchWhole_Opt:
  "MatchWhole (Opt k # r) m \<Longrightarrow> (\<exists>c t. m = c # t \<and> in_cls k c \<and> MatchWhole r t) \<or> MatchWhole r m"
  by (cases m) auto

lemma mexican_result:
  assumes "FindString mexicanPhoneRegex text \<noteq> []"
  shows "isPhoneNumber (formatPhone (TrimSpace (FindString mexicanPhoneRegex text)))"
proof -
  let ?m = "FindString mexicanPhoneRegex text"
  let ?rest = "replicate 3 (One Digit) @ [Opt Ws] @ replicate 3 (One Digit) @ [Opt Ws] @ replicate 4 (One Digit)"
  let ?tail = "One (Lit CHR ''5'') # One (Lit CHR ''2'') # Opt Ws # ?rest"
  have mw: "MatchWhole mexicanPhoneRegex ?m" by (rule FindString_sound [OF assms])
  have "mexicanPhoneRegex = ([Opt (Lit CHR ''+''), One (Lit CHR ''5''), One (Lit CHR ''2''), Opt Ws]
     @ replicate 3 (One Digit) @ [Opt Ws] @ replicate 3 (One Digit) @ [Opt Ws]
     @ replicate 3 (One Digit)) @ [One Digit]"
    unfolding mexicanPhoneRegex_def by (simp add: numeral_eq_Suc replicate_append_same)
  then have la: "?m \<noteq> [] \<and> is_digit (last ?m)"
    using MatchWhole_last mw by (metis in_cls.simps(1))
  have re: "mexicanPhoneRegex = Opt (Lit CHR ''+'') # ?tail"
    by (simp add: mexicanPhoneRegex_def)
  have tl: "\<And>t. MatchWhole ?tail t \<Longrightarrow>
      \<exists>d. clean t = ''52'' @ d \<and> list_all is_digit d \<and> length d = 10 \<and> hd t = CHR ''5''"
  proof -
    fix t assume t: "MatchWhole ?tail t"
    then obtain t2 where t2: "t = CHR ''5'' # CHR ''2'' # t2" "MatchWhole (Opt Ws # ?rest) t2"
      by (cases t; cases "tl t") auto
    have pa: "list_all phone_atom (Opt Ws # ?rest)" by (simp add: list_all_iff)
    have "list_all is_digit (clean t2) \<and> length (clean t2) = 10"
      using phone_shape [OF t2(2) pa] by simp
    moreover have "clean t = ''52'' @ clean t2"
      unfolding t2(1) by (simp add: clean_def is_sep_def is_ws_def)
    ultimately show "\<exists>d. clean t = ''52'' @ d \<and> list_all is_digit d \<and> length d = 10 \<and> hd t = CHR ''5''"
      using t2(1) by auto
  qed
  from mw have "MatchWhole (Opt (Lit CHR ''+'') # ?tail) ?m"
    by (simp only: re)
  from MatchWhole_Opt [OF this]
  consider (plus) t where "?m = CHR ''+'' # t" "MatchWhole ?tail t"
    | (bare) "MatchWhole ?tail ?m"
    by auto
  then show ?thesis
  proof cases
    case plus
    from tl [OF plus(2)] obtain d where d: "clean t = ''52'' @ d" "list_all is_digit d" "length d = 10"
      by blast
    have ts: "TrimSpace ?m = ?m"
      using la plus(1) by (simp add: TrimSpace_phone)
    have cl: "clean ?m = ''+52'' @ d"
      unfolding plus(1) using d(1) by (simp add: clean_def is_sep_def is_ws_def)
    have fp: "formatPhone ?m = group334 d"
      unfolding formatPhone_def Let_def cl using d(3) by (simp add: HasPrefix_def TrimPrefix_def)
    have "clean (group334 d) = d"
      by (rule clean_group334 [OF clean_digits [OF d(2)]])
    then have "isPhoneNumber (group334 d)"
      using d by (simp add: isPhoneNumber_digits)
    then show ?thesis by (simp add: ts fp)
  next
    case bare
    from tl [OF bare] obtain d where d: "clean ?m = ''52'' @ d" "list_all is_digit d" "length d = 10" "hd ?m = CHR ''5''"
      by blast
    have ts: "TrimSpace ?m = ?m"
      using la d(4) by (simp add: TrimSpace_phone is_digit_def)
    have fp: "formatPhone ?m = ?m"
      unfolding formatPhone_def Let_def d(1) using d(3) by (simp add: HasPrefix_def)
    have "list_all is_digit (clean ?m)" "length (clean ?m) = 12"
      unfolding d(1) using d(2,3) by (simp_all add: is_digit_def)
    then have "isPhoneNumber ?m"
      by (simp add: isPhoneNumber_digits)
    then show ?thesis by (simp add: ts fp)
  qed
qed


text \<open>
  \<^bold>\<open>C10.\<close> Whatever the text-pattern matcher returns, when it is not the empty string, the
  validator accepts: for every text, a non-empty result of \<^verbatim>\<open>extractPhoneFromText\<close>
  satisfies \<^verbatim>\<open>isPhoneNumber\<close>. This holds for the matcher of \<^verbatim>\<open>phone_scraper.go\<close>
  (three patterns) and for the matcher of the batch scraper (two patterns).
\<close>

theorem extractPhoneFromText_valid:
  "(extractPhoneFromText text \<noteq> [] \<longrightarrow> isPhoneNumber (extractPhoneFromText text))
   \<and> (extractPhoneFromText_batch text \<noteq> [] \<longrightarrow>
        isPhoneNumber (extractPhoneFromText_batch text))"
  unfolding extractPhoneFromText_def extractPhoneFromText_batch_def Let_def
  using mexican_result [of "text"] tenDigit_result [of "text"] general_result [of "text"]
  by simp

theorem extractPhoneFromText_valid_witness:
  "extractPhoneFromText ''Tel: 222-123-4567'' \<noteq> []
   \<and> isPhoneNumber (extractPhoneFromText ''Tel: 222-123-4567'')
   \<and> extractPhoneFromText_batch ''+52 222 123 4567'' \<noteq> []
   \<and> isPhoneNumber (extractPhoneFromText_batch ''+52 222 123 4567'')"
proof -
  have a: "extractPhoneFromText ''Tel: 222-123-4567'' \<noteq> []" by code_simp
  have b: "extractPhoneFromText_batch ''+52 222 123 4567'' \<noteq> []" by code_simp
  show ?thesis
    using a b extractPhoneFromText_valid [of "''Tel: 222-123-4567''"]
      extractPhoneFromText_valid [of "''+52 222 123 4567''"]
    by blast
qed

section \<open>Properties of the locator\<close>

lemma for_range_Some: "for_range body xs = Some r \<Longrightarrow> \<exists>x \<in> set xs. body x = Some r"
  by (induction xs) (auto split: option.splits)

lemma group334_nonempty: "group334 c \<noteq> []"
  by (simp add: group334_def)

lemma formatPhone_empty: "formatPhone x = [] \<Longrightarrow> x = []"
  by (cases x rule: formatPhone_cases) (simp_all add: group334_nonempty)

lemma Replace1_empty:
  assumes r: "Replace1 v old [] = []" and c: "Contains v old"
  shows "v = old"
proof (cases v)
  case Nil
  with c show ?thesis by (simp add: HasPrefix_def)
next
  case (Cons c cs)
  with r have hp: "HasPrefix (c # cs) old" and dr: "drop (length old) (c # cs) = []"
    by (auto split: if_splits)
  then show ?thesis
    unfolding Cons HasPrefix_def by (metis append_take_drop_id append_Nil2)
qed

lemma phone_button_body_nonempty:
  assumes "phone_button_body extract e = Some r" "el_data_item_id e \<noteq> AttrValue ''phone:tel:''"
  shows "r \<noteq> []"
proof
  assume e: "r = []"
  show False
  proof (cases "el_data_item_id e")
    case AttrError
    with assms e show ?thesis
      by (auto simp: phone_button_body_def Let_def split: option.splits if_splits)
  next
    case AttrAbsent
    with assms e show ?thesis
      by (auto simp: phone_button_body_def Let_def split: option.splits if_splits)
  next
    case (AttrValue v)
    show ?thesis
    proof (cases "Contains v ''phone:tel:''")
      case True
      with assms(1) e AttrValue have "formatPhone (Replace1 v ''phone:tel:'' []) = []"
        by (simp add: phone_button_body_def)
      then have "v = ''phone:tel:''"
        using True by (auto dest!: formatPhone_empty Replace1_empty)
      with assms(2) AttrValue show ?thesis by simp
    next
      case False
      with assms e AttrValue show ?thesis
        by (auto simp: phone_button_body_def Let_def split: option.splits if_splits)
    qed
  qed
qed

lemma strategy1_nonempty: "no_bare_scheme pg \<Longrightarrow> strategy1 extract pg \<noteq> Some []"
proof
  assume nb: "no_bare_scheme pg" and s: "strategy1 extract pg = Some []"
  from s obtain es where es: "elements_phone_button pg = Some es"
    "for_range (phone_button_body extract) es = Some []"
    by (auto simp: strategy1_def split: option.splits if_splits)
  then obtain e where e: "e \<in> set es" "phone_button_body extract e = Some []"
    by (blast dest: for_range_Some)
  from nb es(1) e(1) have "el_data_item_id e \<noteq> AttrValue ''phone:tel:''"
    by (simp add: no_bare_scheme_def list_all_iff)
  with e(2) show False by (blast dest: phone_button_body_nonempty)
qed

lemma strategy2_nonempty: "strategy2 extract pg \<noteq> Some []"
proof
  assume "strategy2 extract pg = Some []"
  then obtain es where "for_range (aria_label_body extract) es = Some []"
    by (auto simp: strategy2_def split: option.splits if_splits)
  then obtain e where "aria_label_body extract e = Some []"
    by (blast dest: for_range_Some)
  then show False
    by (auto simp: aria_label_body_def Let_def split: attr.splits if_splits)
qed

lemma isPhoneNumber_empty: "\<not> isPhoneNumber []"
  by (simp add: isPhoneNumber_def clean_def phonePattern_def numeral_eq_Suc)

lemma strategy3_nonempty: "strategy3 pg \<noteq> Some []"
proof
  assume "strategy3 pg = Some []"
  then obtain es where "for_range number_class_body es = Some []"
    by (auto simp: strategy3_def split: option.splits if_splits)
  then obtain e where "number_class_body e = Some []"
    by (blast dest: for_range_Some)
  then show False
    by (auto simp: number_class_body_def Let_def isPhoneNumber_empty split: option.splits if_splits)
qed

lemma strategy4_nonempty: "strategy4 extract pg \<noteq> Some []"
proof
  assume "strategy4 extract pg = Some []"
  then obtain es where "for_range (all_elements_body extract) es = Some []"
    by (auto simp: strategy4_def split: option.splits if_splits)
  then obtain e where "all_elements_body extract e = Some []"
    by (blast dest: for_range_Some)
  then show False
    by (auto simp: all_elements_body_def Let_def split: option.splits if_splits)
qed

text \<open>
  \<^bold>\<open>C5, as amended.\<close> On a page none of whose phone buttons carries the bare identifier
  \<^verbatim>\<open>phone:tel:\<close>, the locator of \<^verbatim>\<open>phone_scraper.go\<close> returns the first non-empty
  result of its strategies 1, 2, 3, 4 in that order, so that the fallback scan decides when
  strategies 1 to 3 produce nothing; the locator of the batch scraper returns the first
  non-empty result of strategies 1, 2, 3 and reports absent when they produce nothing: it
  has no fallback scan.
\<close>

theorem findPhoneNumber_priority:
  assumes "no_bare_scheme pg"
  shows "findPhoneNumber pg = locate_spec extractPhoneFromText pg
       \<and> findPhoneNumber_batch pg =
           first_nonempty
             [produced (strategy1 extractPhoneFromText_batch pg),
              produced (strategy2 extractPhoneFromText_batch pg),
              produced (strategy3 pg)]
       \<and> (strategy1 extractPhoneFromText pg = None \<and> strategy2 extractPhoneFromText pg = None
            \<and> strategy3 pg = None
          \<longrightarrow> findPhoneNumber pg = produced (strategy4 extractPhoneFromText pg))
       \<and> (strategy1 extractPhoneFromText_batch pg = None
            \<and> strategy2 extractPhoneFromText_batch pg = None \<and> strategy3 pg = None
          \<longrightarrow> findPhoneNumber_batch pg = [])"
proof -
  note ne = strategy1_nonempty [OF assms, of extractPhoneFromText]
    strategy1_nonempty [OF assms, of extractPhoneFromText_batch]
    strategy2_nonempty [of extractPhoneFromText pg]
    strategy2_nonempty [of extractPhoneFromText_batch pg]
    strategy3_nonempty [of pg] strategy4_nonempty [of extractPhoneFromText pg]
  have a: "findPhoneNumber pg = locate_spec extractPhoneFromText pg"
    using ne unfolding findPhoneNumber_def locate_spec_def produced_def
    by (auto split: option.splits)
  have b: "findPhoneNumber_batch pg =
           first_nonempty
             [produced (strategy1 extractPhoneFromText_batch pg),
              produced (strategy2 extractPhoneFromText_batch pg),
              produced (strategy3 pg)]"
    using ne unfolding findPhoneNumber_batch_def produced_def
    by (auto split: option.splits)
  have c: "strategy1 extractPhoneFromText pg = None \<and> strategy2 extractPhoneFromText pg = None
            \<and> strategy3 pg = None
          \<longrightarrow> findPhoneNumber pg = produced (strategy4 extractPhoneFromText pg)"
    unfolding findPhoneNumber_def produced_def by (auto split: option.splits)
  have d: "strategy1 extractPhoneFromText_batch pg = None
            \<and> strategy2 extractPhoneFromText_batch pg = None \<and> strategy3 pg = None
          \<longrightarrow> findPhoneNumber_batch pg = []"
    unfolding findPhoneNumber_batch_def by (auto split: option.splits)
  from a b c d show ?thesis by blast
qed

lemma pg_text_only_s1: "strategy1 ex pg_text_only = None"
  by (simp add: strategy1_def pg_text_only_def)
lemma pg_text_only_s2: "strategy2 ex pg_text_only = None"
  by (simp add: strategy2_def pg_text_only_def)
lemma pg_text_only_s3: "strategy3 pg_text_only = None"
  by (simp add: strategy3_def pg_text_only_def)
lemma extract_llamar: "extractPhoneFromText ''Llamar 222 123 4567'' = ''222 123 4567''"
  by code_simp

lemma extract_batch_llamar:
  "extractPhoneFromText_batch ''Llamar 222 123 4567'' = ''222 123 4567''"
  by code_simp

lemma pg_text_only_s4: "strategy4 extractPhoneFromText pg_text_only = Some ''222 123 4567''"
  by (simp add: strategy4_def pg_text_only_def all_elements_body_def el_def extract_llamar)
lemma pg_text_only_s4b: "strategy4 extractPhoneFromText_batch pg_text_only = Some ''222 123 4567''"
  by (simp add: strategy4_def pg_text_only_def all_elements_body_def el_def extract_batch_llamar)

theorem findPhoneNumber_priority_witness:
  "no_bare_scheme pg_text_only
   \<and> findPhoneNumber pg_text_only = ''222 123 4567''
   \<and> findPhoneNumber_batch pg_text_only = []"
proof -
  have nb: "no_bare_scheme pg_text_only"
    by (simp add: no_bare_scheme_def pg_text_only_def)
  show ?thesis
    using findPhoneNumber_priority [OF nb] nb
    by (simp add: pg_text_only_s1 pg_text_only_s2 pg_text_only_s3 pg_text_only_s4 produced_def
        locate_spec_def)
qed

lemma pg_bare_s1: "strategy1 extractPhoneFromText pg_bare = Some []"
  by (simp add: strategy1_def pg_bare_def phone_button_body_def el_def HasPrefix_def
      formatPhone_def clean_def)

lemma pg_bare_s2: "strategy2 ex pg_bare = None"
  by (simp add: strategy2_def pg_bare_def)

lemma pg_bare_s3: "strategy3 pg_bare = None"
  by (simp add: strategy3_def pg_bare_def)

lemma pg_bare_s4: "strategy4 extractPhoneFromText pg_bare = Some ''222 123 4567''"
  by (simp add: strategy4_def pg_bare_def all_elements_body_def el_def extract_llamar)

text \<open>
  \<^bold>\<open>C5, as stated, fails.\<close> On a page whose only phone text is in an ordinary element,
  strategies 1 to 3 produce nothing and the fallback scan would find the number, but the
  batch locator reports absent. On a page with a phone button whose identifier is the bare
  scheme, the locator of \<^verbatim>\<open>phone_scraper.go\<close> returns the empty result of strategy 1
  at once, although the fallback scan would find the number.
\<close>

theorem findPhoneNumber_fallback_counterexample:
  "strategy1 extractPhoneFromText_batch pg_text_only = None
   \<and> strategy2 extractPhoneFromText_batch pg_text_only = None
   \<and> strategy3 pg_text_only = None
   \<and> strategy4 extractPhoneFromText_batch pg_text_only = Some ''222 123 4567''
   \<and> locate_spec extractPhoneFromText_batch pg_text_only = ''222 123 4567''
   \<and> findPhoneNumber_batch pg_text_only = []
   \<and> locate_spec extractPhoneFromText pg_bare = ''222 123 4567''
   \<and> findPhoneNumber pg_bare = []"
  by (simp add: pg_text_only_s1 pg_text_only_s2 pg_text_only_s3 pg_text_only_s4b
      locate_spec_def produced_def findPhoneNumber_batch_def findPhoneNumber_def
      pg_bare_s1 pg_bare_s2 pg_bare_s3 pg_bare_s4)

section \<open>Properties of the worker pool\<close>

lemma filter_update_count:
  "i < length xs \<Longrightarrow>
     length (filter P (xs[i := y])) + (if P (xs ! i) then 1 else 0)
       = length (filter P xs) + (if P y then 1 else 0)"
proof (induction xs arbitrary: i)
  case Nil
  then show ?case by simp
next
  case (Cons x xs)
  show ?case
  proof (cases i)
    case 0
    then show ?thesis by simp
  next
    case (Suc j)
    with Cons.prems have "j < length xs" by simp
    from Cons.IH [OF this] Suc show ?thesis by simp
  qed
qed

lemma count_same:
  "i < length xs \<Longrightarrow> P (xs ! i) = P y \<Longrightarrow> length (filter P (xs[i := y])) = length (filter P xs)"
  using filter_update_count [of i xs P y] by (simp split: if_splits)

lemma count_up:
  "i < length xs \<Longrightarrow> \<not> P (xs ! i) \<Longrightarrow> P y \<Longrightarrow>
     length (filter P (xs[i := y])) = length (filter P xs) + 1"
  using filter_update_count [of i xs P y] by simp

lemma count_down:
  "i < length xs \<Longrightarrow> P (xs ! i) \<Longrightarrow> \<not> P y \<Longrightarrow>
     length (filter P (xs[i := y])) + 1 = length (filter P xs)"
  using filter_update_count [of i xs P y] by simp

lemma unspawned_tail_update:
  assumes "list_all (\<lambda>p. p = Unspawned) (drop n xs)" "xs ! i \<noteq> Unspawned" "i < length xs"
  shows "list_all (\<lambda>p. p = Unspawned) (drop n (xs[i := y]))"
proof -
  have "i < n"
  proof (rule ccontr)
    assume "\<not> i < n"
    then have "drop n xs ! (i - n) = xs ! i" "i - n < length (drop n xs)"
      using assms(3) by simp_all
    then have "xs ! i \<in> set (drop n xs)"
      using nth_mem by metis
    with assms(1,2) show False by (simp add: list_all_iff)
  qed
  then show ?thesis using assms(1) by (simp add: drop_update_cancel)
qed

lemma init_inv: "pool_inv cap (init_pool places)"
  by (simp add: pool_inv_def init_pool_def list_all_iff)

lemma step_cases [consumes 1, case_names Spawn Acquire Test_eligible Test_skip Write Discard
    Wake Release Tick Done Return Wait]:
  assumes "step cap a s = Some s'"
  obtains
    (Spawn) "a = Spawn" "spawned s < length (pcs s)"
      "s' = s\<lparr>pcs := (pcs s)[spawned s := AtAcquire], wg := wg s + 1,
               spawned := spawned s + 1\<rparr>"
  | (Acquire) i where "a = Go i" "i < length (pcs s)" "pcs s ! i = AtAcquire"
      "semaphore s < cap"
      "s' = s\<lparr>pcs := (pcs s)[i := AtTest], semaphore := semaphore s + 1\<rparr>"
  | (Test_eligible) i where "a = Go i" "i < length (pcs s)" "pcs s ! i = AtTest"
      "eligible (updatedPlaces s ! i)" "s' = s\<lparr>pcs := (pcs s)[i := Extracting]\<rparr>"
  | (Test_skip) i where "a = Go i" "i < length (pcs s)" "pcs s ! i = AtTest"
      "\<not> eligible (updatedPlaces s ! i)" "s' = s\<lparr>pcs := (pcs s)[i := AtRelease]\<rparr>"
  | (Write) i phone where "a = Go i" "i < length (pcs s)" "pcs s ! i = Extracted phone None"
      "phone \<noteq> []"
      "s' = s\<lparr>updatedPlaces :=
                 (updatedPlaces s)[i := (updatedPlaces s ! i)\<lparr>ScrapedPhone := phone\<rparr>],
               pcs := (pcs s)[i := Sleeping]\<rparr>"
  | (Discard) i phone err where "a = Go i" "i < length (pcs s)"
      "pcs s ! i = Extracted phone err" "err \<noteq> None \<or> phone = []"
      "s' = s\<lparr>pcs := (pcs s)[i := Sleeping]\<rparr>"
  | (Wake) i where "a = Go i" "i < length (pcs s)" "pcs s ! i = Sleeping"
      "s' = s\<lparr>pcs := (pcs s)[i := AtRelease]\<rparr>"
  | (Release) i where "a = Go i" "i < length (pcs s)" "pcs s ! i = AtRelease"
      "0 < semaphore s"
      "s' = s\<lparr>pcs := (pcs s)[i := AtTick], semaphore := semaphore s - 1\<rparr>"
  | (Tick) i where "a = Go i" "i < length (pcs s)" "pcs s ! i = AtTick"
      "s' = s\<lparr>pcs := (pcs s)[i := AtDone], bar := bar s + 1\<rparr>"
  | (Done) i where "a = Go i" "i < length (pcs s)" "pcs s ! i = AtDone" "0 < wg s"
      "s' = s\<lparr>pcs := (pcs s)[i := Finished], wg := wg s - 1\<rparr>"
  | (Return) i phone err where "a = Return i phone err" "i < length (pcs s)"
      "pcs s ! i = Extracting" "s' = s\<lparr>pcs := (pcs s)[i := Extracted phone err]\<rparr>"
  | (Wait) "a = Wait" "spawned s = length (pcs s)" "wg s = 0" "\<not> returned s"
      "s' = s\<lparr>returned := True\<rparr>"
proof (cases a)
  case Spawn
  with assms that(1) show ?thesis by (auto split: if_splits)
next
  case (Go i)
  with assms have i: "i < length (pcs s)" and g: "go_step cap i s = Some s'"
    by (auto split: if_splits)
  show ?thesis
  proof (cases "pcs s ! i")
    case Unspawned
    with g show ?thesis by (simp add: go_step_def)
  next
    case AtAcquire
    with g Go i that(2) show ?thesis by (auto simp: go_step_def split: if_splits)
  next
    case AtTest
    with g Go i that(3,4) show ?thesis by (auto simp: go_step_def split: if_splits)
  next
    case Extracting
    with g show ?thesis by (simp add: go_step_def)
  next
    case (Extracted phone err)
    show ?thesis
    proof (cases "err = None \<and> phone \<noteq> []")
      case True
      with g Go i Extracted that(5) [of i phone] show ?thesis
        by (auto simp: go_step_def)
    next
      case False
      with g Go i Extracted that(6) [of i phone err] show ?thesis
        by (auto simp: go_step_def)
    qed
  next
    case Sleeping
    with g Go i that(7) show ?thesis by (auto simp: go_step_def)
  next
    case AtRelease
    with g Go i that(8) show ?thesis by (auto simp: go_step_def split: if_splits)
  next
    case AtTick
    with g Go i that(9) show ?thesis by (auto simp: go_step_def)
  next
    case AtDone
    with g Go i that(10) show ?thesis by (auto simp: go_step_def split: if_splits)
  next
    case Finished
    with g show ?thesis by (simp add: go_step_def)
  qed
next
  case (Return i phone err)
  with assms that(11) show ?thesis by (auto split: if_splits)
next
  case Wait
  with assms that(12) show ?thesis by (auto split: if_splits)
qed

lemma run_induct:
  assumes r: "run cap sched s = Some s'" and init: "P s"
    and st: "\<And>s a s'. P s \<Longrightarrow> step cap a s = Some s' \<Longrightarrow> P s'"
  shows "P s'"
  using r init
proof (induction sched arbitrary: s)
  case Nil
  then show ?case by simp
next
  case (Cons a as)
  then show ?case by (auto split: option.splits dest: st)
qed

lemma unspawned_head:
  assumes "list_all (\<lambda>p. p = Unspawned) (drop n xs)" "n < length xs"
  shows "xs ! n = Unspawned" "list_all (\<lambda>p. p = Unspawned) (drop (Suc n) xs)"
proof -
  have d: "drop n xs = xs ! n # drop (Suc n) xs"
    using assms(2) by (simp add: Cons_nth_drop_Suc)
  from assms(1) show "xs ! n = Unspawned" "list_all (\<lambda>p. p = Unspawned) (drop (Suc n) xs)"
    unfolding d by simp_all
qed

lemma pool_inv_step:
  assumes inv: "pool_inv cap s" and st: "step cap a s = Some s'"
  shows "pool_inv cap s'"
  using st
proof (cases rule: step_cases)
  case Spawn
  have "pcs s ! spawned s = Unspawned"
    "list_all (\<lambda>p. p = Unspawned) (drop (Suc (spawned s)) (pcs s))"
    using inv Spawn(2) by (simp_all add: pool_inv_def unspawned_head)
  then show ?thesis
    using inv Spawn unfolding pool_inv_def
    by (simp add: count_up count_same)
next
  case (Release i)
  have "length (filter holds_slot ((pcs s)[i := AtTick])) + 1 = length (filter holds_slot (pcs s))"
    using count_down [of i "pcs s" holds_slot AtTick] Release by simp
  then show ?thesis
    using inv Release unfolding pool_inv_def
    by (auto simp add: count_same unspawned_tail_update)
next
  case (Done i)
  have "length (filter counted ((pcs s)[i := Finished])) + 1 = length (filter counted (pcs s))"
    using count_down [of i "pcs s" counted Finished] Done by simp
  then show ?thesis
    using inv Done unfolding pool_inv_def
    by (auto simp add: count_same unspawned_tail_update)
qed (use inv in \<open>simp_all add: pool_inv_def count_same count_up unspawned_tail_update\<close>)

lemma tick_inv_step:
  assumes inv: "tick_inv s" and pinv: "pool_inv cap s" and st: "step cap a s = Some s'"
  shows "tick_inv s'"
  using st
proof (cases rule: step_cases)
  case Spawn
  have "pcs s ! spawned s = Unspawned"
    using pinv Spawn(2) by (simp add: pool_inv_def unspawned_head)
  then show ?thesis
    using inv Spawn unfolding tick_inv_def
    by (auto simp add: count_up count_same split: if_splits)
qed (use inv in \<open>auto simp add: tick_inv_def count_same count_up split: if_splits\<close>)

lemma init_tick_inv: "tick_inv (init_pool places)"
  by (simp add: tick_inv_def init_pool_def)

lemma frame_ok_pc:
  "frame_ok p0 p q \<Longrightarrow> enriching q' \<or> pacing q' \<longrightarrow> eligible p0 \<Longrightarrow> frame_ok p0 p q'"
  by (auto simp: frame_ok_def split: if_splits)

lemma frame_ok_eligible:
  assumes "frame_ok p0 p q"
  shows "eligible p = eligible p0"
proof -
  from assms have e: "p\<lparr>ScrapedPhone := []\<rparr> = p0\<lparr>ScrapedPhone := []\<rparr>"
    by (simp add: frame_ok_def)
  have "Phone (p\<lparr>ScrapedPhone := []\<rparr>) = Phone (p0\<lparr>ScrapedPhone := []\<rparr>)"
    "GoogleURL (p\<lparr>ScrapedPhone := []\<rparr>) = GoogleURL (p0\<lparr>ScrapedPhone := []\<rparr>)"
    by (simp_all only: e)
  then show ?thesis by (simp add: eligible_def)
qed

lemma frame_inv_nth:
  "frame_inv places s \<Longrightarrow> i < length places \<Longrightarrow>
     frame_ok (places ! i) (updatedPlaces s ! i) (pcs s ! i)"
  by (simp add: frame_inv_def list_all_iff)

lemma frame_inv_pcs:
  assumes inv: "frame_inv places s" and i: "i < length (pcs s)"
    and el: "enriching q \<or> pacing q \<longrightarrow> eligible (places ! i)"
  shows "frame_inv places (s\<lparr>pcs := (pcs s)[i := q]\<rparr>)"
proof -
  have len: "length (pcs s) = length places" using inv by (simp add: frame_inv_def)
  have "frame_ok (places ! j) (updatedPlaces s ! j) ((pcs s)[i := q] ! j)"
    if j: "j < length places" for j
  proof (cases "j = i")
    case True
    with frame_inv_nth [OF inv j] el i show ?thesis
      by (simp add: frame_ok_pc)
  next
    case False
    with frame_inv_nth [OF inv j] show ?thesis by simp
  qed
  then show ?thesis
    using inv by (simp add: frame_inv_def list_all_iff)
qed

lemma frame_inv_fields:
  "frame_inv places (s\<lparr>semaphore := x\<rparr>) = frame_inv places s"
  "frame_inv places (s\<lparr>bar := y\<rparr>) = frame_inv places s"
  "frame_inv places (s\<lparr>wg := z\<rparr>) = frame_inv places s"
  "frame_inv places (s\<lparr>spawned := u\<rparr>) = frame_inv places s"
  "frame_inv places (s\<lparr>returned := v\<rparr>) = frame_inv places s"
  by (simp_all add: frame_inv_def)

lemma frame_inv_step:
  assumes inv: "frame_inv places s" and st: "step cap a s = Some s'"
  shows "frame_inv places s'"
  using st
proof (cases rule: step_cases)
  case Spawn
  have "frame_inv places (s\<lparr>pcs := (pcs s)[spawned s := AtAcquire]\<rparr>)"
    using inv Spawn(2) by (intro frame_inv_pcs) simp_all
  then show ?thesis
    unfolding Spawn(3) by (simp add: frame_inv_def)
next
  case (Acquire i)
  have "frame_inv places (s\<lparr>pcs := (pcs s)[i := AtTest]\<rparr>)"
    using inv Acquire(2) by (intro frame_inv_pcs) simp_all
  then show ?thesis
    unfolding Acquire(5) by (simp add: frame_inv_def)
next
  case (Test_eligible i)
  have "i < length places" using inv Test_eligible(2) by (simp add: frame_inv_def)
  from frame_inv_nth [OF inv this] Test_eligible(4) have "eligible (places ! i)"
    by (simp add: frame_ok_eligible)
  then show ?thesis
    unfolding Test_eligible(5) using inv Test_eligible(2) by (intro frame_inv_pcs) simp_all
next
  case (Test_skip i)
  show ?thesis
    unfolding Test_skip(5) using inv Test_skip(2) by (intro frame_inv_pcs) simp_all
next
  case (Write i phone)
  have len: "length (pcs s) = length places" "length (updatedPlaces s) = length places"
    using inv by (simp_all add: frame_inv_def)
  have il: "i < length places" using len Write(2) by simp
  have fi: "frame_ok (places ! i) (updatedPlaces s ! i) (pcs s ! i)"
    by (rule frame_inv_nth [OF inv il])
  then have el: "eligible (places ! i)"
    using Write(3) by (auto simp: frame_ok_def split: if_splits)
  have "frame_ok (places ! j) (updatedPlaces s' ! j) (pcs s' ! j)"
    if j: "j < length places" for j
  proof (cases "j = i")
    case True
    have "(updatedPlaces s ! i)\<lparr>ScrapedPhone := []\<rparr> = (places ! i)\<lparr>ScrapedPhone := []\<rparr>"
      using fi by (simp add: frame_ok_def)
    then show ?thesis
      unfolding Write(5) using True el il len by (simp add: frame_ok_def)
  next
    case False
    with frame_inv_nth [OF inv j] show ?thesis
      unfolding Write(5) by simp
  qed
  then show ?thesis
    unfolding frame_inv_def using len by (simp add: list_all_iff Write(5))
next
  case (Discard i phone err)
  have "i < length places" using inv Discard(2) by (simp add: frame_inv_def)
  from frame_inv_nth [OF inv this] Discard(3) have "eligible (places ! i)"
    by (auto simp: frame_ok_def split: if_splits)
  then show ?thesis
    unfolding Discard(5) using inv Discard(2) by (intro frame_inv_pcs) simp_all
next
  case (Wake i)
  show ?thesis
    unfolding Wake(4) using inv Wake(2) by (intro frame_inv_pcs) simp_all
next
  case (Release i)
  have "frame_inv places (s\<lparr>pcs := (pcs s)[i := AtTick]\<rparr>)"
    using inv Release(2) by (intro frame_inv_pcs) simp_all
  then show ?thesis
    unfolding Release(5) by (simp add: frame_inv_def)
next
  case (Tick i)
  have "frame_inv places (s\<lparr>pcs := (pcs s)[i := AtDone]\<rparr>)"
    using inv Tick(2) by (intro frame_inv_pcs) simp_all
  then show ?thesis
    unfolding Tick(4) by (simp add: frame_inv_def)
next
  case (Done i)
  have "frame_inv places (s\<lparr>pcs := (pcs s)[i := Finished]\<rparr>)"
    using inv Done(2) by (intro frame_inv_pcs) simp_all
  then show ?thesis
    unfolding Done(5) by (simp add: frame_inv_def)
next
  case (Return i phone err)
  have "i < length places" using inv Return(2) by (simp add: frame_inv_def)
  from frame_inv_nth [OF inv this] Return(3) have "eligible (places ! i)"
    by (auto simp: frame_ok_def split: if_splits)
  then show ?thesis
    unfolding Return(4) using inv Return(2) by (intro frame_inv_pcs) simp_all
next
  case Wait
  with inv show ?thesis by (simp add: frame_inv_def)
qed

lemma init_frame_inv: "frame_inv places (init_pool places)"
  by (simp add: frame_inv_def init_pool_def frame_ok_def list_all_iff)

lemma run_invs:
  assumes "run cap sched (init_pool places) = Some s"
  shows "pool_inv cap s \<and> tick_inv s \<and> frame_inv places s"
  using assms
proof (rule run_induct)
  show "pool_inv cap (init_pool places) \<and> tick_inv (init_pool places)
      \<and> frame_inv places (init_pool places)"
    by (simp add: init_inv init_tick_inv init_frame_inv)
next
  fix s a s'
  assume "pool_inv cap s \<and> tick_inv s \<and> frame_inv places s" "step cap a s = Some s'"
  then show "pool_inv cap s' \<and> tick_inv s' \<and> frame_inv places s'"
    by (blast intro: pool_inv_step tick_inv_step frame_inv_step)
qed

lemma filter_mono_length:
  "(\<And>x. P x \<Longrightarrow> Q x) \<Longrightarrow> length (filter P xs) \<le> length (filter Q xs)"
  by (induction xs) auto

lemma count_zero: "length (filter P xs) = 0 \<Longrightarrow> i < length xs \<Longrightarrow> \<not> P (xs ! i)"
  by (metis filter_empty_conv length_0_conv nth_mem)

lemma count_all: "length (filter P xs) = length xs \<Longrightarrow> i < length xs \<Longrightarrow> P (xs ! i)"
  by (metis filter_id_conv length_filter_less less_irrefl_nat nth_mem filter_True)

lemma returned_finished:
  assumes "pool_inv cap s" "tick_inv s" "returned s"
  shows "list_all (\<lambda>p. p = Finished) (pcs s)"
proof -
  have w: "length (filter counted (pcs s)) = 0"
    and sp: "length (filter started (pcs s)) = length (pcs s)"
    using assms by (simp_all add: pool_inv_def tick_inv_def)
  have "pcs s ! i = Finished" if "i < length (pcs s)" for i
  proof -
    have "\<not> counted (pcs s ! i)" "started (pcs s ! i)"
      using count_zero [OF w that] count_all [OF sp that] by simp_all
    then show ?thesis by (cases "pcs s ! i") simp_all
  qed
  then show ?thesis by (simp add: list_all_length)
qed

lemma all_finished_counts:
  assumes "list_all (\<lambda>p. p = Finished) xs"
  shows "length (filter holds_slot xs) = 0" "length (filter ticked xs) = length xs"
  using assms by (induction xs) auto

text \<open>
  \<^bold>\<open>C1.\<close> In every state of every run of the worker pool over any batch, with a channel of
  any capacity \<open>cap\<close> (the source has \<open>maxPhoneWorkers\<close>, 3): the goroutines that hold a
  slot, that is, those between their send on the channel and their receive from it, are as
  many as the channel has values, and so at most \<open>cap\<close>; the goroutines whose enrichment
  runs are among them, so at most \<open>cap\<close> enrichments run at once; and when
  \<^verbatim>\<open>wg.Wait()\<close> has returned every slot has been released.
\<close>

theorem semaphore_cap:
  assumes "run cap sched (init_pool places) = Some s"
  shows "length (filter holds_slot (pcs s)) = semaphore s
       \<and> semaphore s \<le> cap
       \<and> length (filter enriching (pcs s)) \<le> cap
       \<and> (returned s \<longrightarrow> semaphore s = 0)"
proof -
  from run_invs [OF assms] have inv: "pool_inv cap s" "tick_inv s" by simp_all
  have a: "length (filter holds_slot (pcs s)) = semaphore s" "semaphore s \<le> cap"
    using inv(1) by (simp_all add: pool_inv_def)
  have "length (filter enriching (pcs s)) \<le> length (filter holds_slot (pcs s))"
  proof (rule filter_mono_length)
    fix x show "enriching x \<Longrightarrow> holds_slot x" by (cases x) simp_all
  qed
  with a have b: "length (filter enriching (pcs s)) \<le> cap" by simp
  have c: "semaphore s = 0" if "returned s"
    using all_finished_counts(1) [OF returned_finished [OF inv that]] a(1) by simp
  from a b c show ?thesis by simp
qed

lemma pacing_holds: "pacing x \<Longrightarrow> holds_slot x"
  by (cases x) simp_all

lemma count_pos: "i < length xs \<Longrightarrow> P (xs ! i) \<Longrightarrow> 0 < length (filter P xs)"
proof -
  assume "i < length xs" "P (xs ! i)"
  then have "xs ! i \<in> set (filter P xs)" by simp
  then show ?thesis by (rule length_pos_if_in_set)
qed

text \<open>
  \<^bold>\<open>C7, as amended.\<close> The one-second pacing delay of a job is taken before the job releases
  its slot: in every state of every run, a goroutine in the delay holds a slot, the
  goroutines in the delay are at most as many as the channel has values, and when \<open>cap\<close>
  goroutines are in the delay no waiting goroutine can acquire a slot.
\<close>

theorem pacing_holds_slot:
  assumes "run cap sched (init_pool places) = Some s"
  shows "length (filter pacing (pcs s)) \<le> semaphore s
       \<and> (\<forall>i < length (pcs s). pacing (pcs s ! i) \<longrightarrow> holds_slot (pcs s ! i) \<and> 0 < semaphore s)
       \<and> (length (filter pacing (pcs s)) = cap \<longrightarrow>
            (\<forall>j < length (pcs s). pcs s ! j = AtAcquire \<longrightarrow> step cap (Go j) s = None))"
proof -
  from run_invs [OF assms] have inv: "pool_inv cap s" by simp
  have sem: "semaphore s = length (filter holds_slot (pcs s))" "semaphore s \<le> cap"
    using inv by (simp_all add: pool_inv_def)
  have a: "length (filter pacing (pcs s)) \<le> semaphore s"
    unfolding sem(1) by (rule filter_mono_length) (rule pacing_holds)
  have b: "holds_slot (pcs s ! i) \<and> 0 < semaphore s"
    if "i < length (pcs s)" "pacing (pcs s ! i)" for i
  proof -
    have h: "holds_slot (pcs s ! i)" using that(2) by (rule pacing_holds)
    have "0 < length (filter holds_slot (pcs s))" by (rule count_pos [of i "pcs s" holds_slot, OF that(1) h])
    then have "0 < semaphore s" by (simp only: sem(1))
    with h show ?thesis by (rule conjI)
  qed
  have c: "step cap (Go j) s = None"
    if "length (filter pacing (pcs s)) = cap" "j < length (pcs s)" "pcs s ! j = AtAcquire" for j
  proof -
    from that(1) a sem(2) have "semaphore s = cap" by simp
    with that(2,3) show ?thesis by (simp add: go_step_def)
  qed
  have b': "\<forall>i < length (pcs s). pacing (pcs s ! i) \<longrightarrow>
      holds_slot (pcs s ! i) \<and> 0 < semaphore s"
    by (intro allI impI) (rule b)
  have c': "length (filter pacing (pcs s)) = cap \<longrightarrow>
      (\<forall>j < length (pcs s). pcs s ! j = AtAcquire \<longrightarrow> step cap (Go j) s = None)"
    by (intro allI impI) (rule c)
  show ?thesis
    by (intro conjI a b' c')
qed

lemma pacing_sched_run:
  "run maxPhoneWorkers pacing_sched (init_pool four_places) = Some pacing_state"
  by code_simp

lemma five_sched_run:
  "run maxPhoneWorkers five_sched (init_pool five_places) = Some five_state"
  by code_simp

theorem semaphore_cap_witness:
  "run maxPhoneWorkers five_sched (init_pool five_places) = Some five_state
   \<and> returned five_state
   \<and> length (filter holds_slot (pcs five_state)) = semaphore five_state
   \<and> semaphore five_state \<le> maxPhoneWorkers
   \<and> length (filter enriching (pcs five_state)) \<le> maxPhoneWorkers
   \<and> semaphore five_state = 0"
proof -
  note th = semaphore_cap [OF five_sched_run]
  have r: "returned five_state" by (simp add: five_state_def)
  have z: "semaphore five_state = 0"
    using th [THEN conjunct2, THEN conjunct2, THEN conjunct2] r by (rule mp)
  show ?thesis
    by (intro conjI five_sched_run r z th [THEN conjunct1] th [THEN conjunct2, THEN conjunct1]
        th [THEN conjunct2, THEN conjunct2, THEN conjunct1])
qed


lemma pacing_state_facts:
  "length (filter pacing (pcs pacing_state)) = maxPhoneWorkers"
  "pacing (pcs pacing_state ! 0)" "pcs pacing_state ! 3 = AtAcquire"
  "length (pcs pacing_state) = 4"
  "pcs pacing_state = [Sleeping, Sleeping, Sleeping, AtAcquire]"
  "semaphore pacing_state = maxPhoneWorkers"
  by (simp_all add: pacing_state_def maxPhoneWorkers_def)

theorem pacing_holds_slot_witness:
  "run maxPhoneWorkers pacing_sched (init_pool four_places) = Some pacing_state
   \<and> length (filter pacing (pcs pacing_state)) = maxPhoneWorkers
   \<and> pacing (pcs pacing_state ! 0) \<and> pcs pacing_state ! 3 = AtAcquire
   \<and> holds_slot (pcs pacing_state ! 0) \<and> 0 < semaphore pacing_state
   \<and> step maxPhoneWorkers (Go 3) pacing_state = None"
proof -
  note th = pacing_holds_slot [OF pacing_sched_run]
  from th have "\<forall>i < length (pcs pacing_state). pacing (pcs pacing_state ! i) \<longrightarrow>
      holds_slot (pcs pacing_state ! i) \<and> 0 < semaphore pacing_state"
    by blast
  from this [rule_format, of 0]
  have a: "holds_slot (pcs pacing_state ! 0) \<and> 0 < semaphore pacing_state"
    by (simp add: pacing_state_facts)
  from th have "\<forall>j < length (pcs pacing_state). pcs pacing_state ! j = AtAcquire \<longrightarrow>
      step maxPhoneWorkers (Go j) pacing_state = None"
    using pacing_state_facts(1) by blast
  from this [rule_format, of 3]
  have b: "step maxPhoneWorkers (Go 3) pacing_state = None"
    by (simp add: pacing_state_facts)
  show ?thesis
    by (intro conjI pacing_sched_run pacing_state_facts(1,2,3) a [THEN conjunct1]
        a [THEN conjunct2] b)
qed

lemma pacing_blocked: "step maxPhoneWorkers (Go 3) pacing_state = None"
  by code_simp

text \<open>
  \<^bold>\<open>C7, as stated, fails.\<close> With four eligible records and the capacity 3 of the source,
  there is a run after which three goroutines are in the pacing delay, the channel is full,
  and the fourth goroutine cannot acquire a slot: the delay keeps the slots occupied.
\<close>

theorem pacing_after_release_counterexample:
  "run maxPhoneWorkers pacing_sched (init_pool four_places) = Some pacing_state
   \<and> pcs pacing_state = [Sleeping, Sleeping, Sleeping, AtAcquire]
   \<and> semaphore pacing_state = maxPhoneWorkers
   \<and> step maxPhoneWorkers (Go 3) pacing_state = None"
  by (intro conjI pacing_sched_run pacing_blocked pacing_state_facts(5) pacing_state_facts(6))

subsection \<open>The pool can return\<close>

text \<open>For every batch and every outcome of the extractions there is a run in which
  \<^verbatim>\<open>processPlacesWithPhones\<close> returns, and so one in which \<^verbatim>\<open>ProcessCSV\<close> reports
  its statistics: the theorems about completed runs are about something.\<close>

lemma run_append:
  "run cap (as @ bs) s = (case run cap as s of Some s' \<Rightarrow> run cap bs s' | None \<Rightarrow> None)"
  by (induction as arbitrary: s) (auto split: option.splits)

lemma run_spawns:
  assumes "pcs s = replicate j AtAcquire @ replicate k Unspawned" "spawned s = j"
  shows "\<exists>s'. run cap (replicate k Spawn) s = Some s'
            \<and> pcs s' = replicate (j + k) AtAcquire \<and> spawned s' = j + k \<and> wg s' = wg s + k
            \<and> semaphore s' = semaphore s \<and> bar s' = bar s \<and> returned s' = returned s
            \<and> updatedPlaces s' = updatedPlaces s"
  using assms
proof (induction k arbitrary: s j)
  case 0
  then show ?case by simp
next
  case (Suc k)
  let ?t = "s\<lparr>pcs := (pcs s)[spawned s := AtAcquire], wg := wg s + 1,
               spawned := spawned s + 1\<rparr>"
  have st: "step cap Spawn s = Some ?t"
    using Suc.prems by simp
  have p: "pcs ?t = replicate (Suc j) AtAcquire @ replicate k Unspawned"
    using Suc.prems by (simp add: list_update_append replicate_append_same)
  have sp: "spawned ?t = Suc j" using Suc.prems by simp
  from Suc.IH [OF p sp] obtain s' where
    "run cap (replicate k Spawn) ?t = Some s'"
    "pcs s' = replicate (Suc j + k) AtAcquire" "spawned s' = Suc j + k" "wg s' = wg ?t + k"
    "semaphore s' = semaphore ?t" "bar s' = bar ?t" "returned s' = returned ?t"
    "updatedPlaces s' = updatedPlaces ?t"
    by blast
  then show ?case
    using st by simp
qed

lemma run_worker:
  assumes i: "i < length (pcs s)" and at: "pcs s ! i = AtAcquire" and sem: "semaphore s = 0"
    and cap: "0 < cap" and w: "0 < wg s"
    and el: "eligible (updatedPlaces s ! i) = eligible (places ! i)"
  shows "\<exists>s'. run cap (worker_sched outcome places i) s = Some s'
            \<and> pcs s' = (pcs s)[i := Finished] \<and> semaphore s' = 0 \<and> wg s' + 1 = wg s
            \<and> bar s' = bar s + 1 \<and> spawned s' = spawned s \<and> returned s' = returned s
            \<and> length (updatedPlaces s') = length (updatedPlaces s)
            \<and> (\<forall>j. j \<noteq> i \<longrightarrow> updatedPlaces s' ! j = updatedPlaces s ! j)"
proof (cases "eligible (places ! i)")
  case True
  show ?thesis
  proof (cases "snd (outcome i) = None \<and> fst (outcome i) \<noteq> []")
    case w: True
    show ?thesis
      using i at sem cap \<open>0 < wg s\<close> el True w
      by (simp add: worker_sched_def job_def go_step_def)
  next
    case False
    then show ?thesis
      using i at sem cap w el True
      by (auto simp add: worker_sched_def job_def go_step_def)
  qed
next
  case False
  then show ?thesis
    using i at sem cap w el
    by (simp add: worker_sched_def skip_job_def go_step_def)
qed


lemma run_workers:
  assumes "pcs s = replicate k Finished @ replicate m AtAcquire" "semaphore s = 0" "0 < cap"
    "wg s = m" "length (updatedPlaces s) = k + m"
    "\<forall>j. k \<le> j \<and> j < k + m \<longrightarrow> updatedPlaces s ! j = places ! j"
  shows "\<exists>s'. run cap (concat (map (worker_sched outcome places) [k..<k + m])) s = Some s'
            \<and> pcs s' = replicate (k + m) Finished \<and> semaphore s' = 0 \<and> wg s' = 0
            \<and> bar s' = bar s + m \<and> spawned s' = spawned s \<and> returned s' = returned s"
  using assms
proof (induction m arbitrary: s k)
  case 0
  then show ?case by simp
next
  case (Suc m)
  have i: "k < length (pcs s)" and at: "pcs s ! k = AtAcquire"
    using Suc.prems(1) by (simp_all add: nth_append)
  have el: "eligible (updatedPlaces s ! k) = eligible (places ! k)"
    using Suc.prems(6) by simp
  have w: "0 < wg s" using Suc.prems(4) by simp
  from run_worker [OF i at Suc.prems(2,3) w el, of outcome] obtain s1 where
    r1: "run cap (worker_sched outcome places k) s = Some s1"
    and p1: "pcs s1 = (pcs s)[k := Finished]" and sem1: "semaphore s1 = 0"
    and wg1: "wg s1 + 1 = wg s" and bar1: "bar s1 = bar s + 1"
    and sp1: "spawned s1 = spawned s" and rt1: "returned s1 = returned s"
    and len1: "length (updatedPlaces s1) = length (updatedPlaces s)"
    and up1: "\<forall>j. j \<noteq> k \<longrightarrow> updatedPlaces s1 ! j = updatedPlaces s ! j"
    by blast
  have p1': "pcs s1 = replicate (Suc k) Finished @ replicate m AtAcquire"
    unfolding p1 Suc.prems(1)
    by (simp add: list_update_append replicate_append_same)
  have wg1': "wg s1 = m" using wg1 Suc.prems(4) by simp
  have len1': "length (updatedPlaces s1) = Suc k + m" using len1 Suc.prems(5) by simp
  have up1': "\<forall>j. Suc k \<le> j \<and> j < Suc k + m \<longrightarrow> updatedPlaces s1 ! j = places ! j"
    using up1 Suc.prems(6) by simp
  from Suc.IH [OF p1' sem1 Suc.prems(3) wg1' len1' up1'] obtain s' where
    r2: "run cap (concat (map (worker_sched outcome places) [Suc k..<Suc k + m])) s1 = Some s'"
    and f: "pcs s' = replicate (Suc k + m) Finished" "semaphore s' = 0" "wg s' = 0"
      "bar s' = bar s1 + m" "spawned s' = spawned s1" "returned s' = returned s1"
    by blast
  have "[k..<k + Suc m] = k # [Suc k..<Suc k + m]"
    by (simp add: upt_conv_Cons)
  then have "run cap (concat (map (worker_sched outcome places) [k..<k + Suc m])) s = Some s'"
    using r1 r2 by (simp add: run_append)
  with f bar1 sp1 rt1 show ?case by simp
qed

lemma pool_can_return:
  assumes "0 < cap"
  shows "\<exists>s. run cap (seq_sched outcome places) (init_pool places) = Some s \<and> returned s"
proof -
  let ?n = "length places"
  have "pcs (init_pool places) = replicate 0 AtAcquire @ replicate ?n Unspawned"
    "spawned (init_pool places) = 0"
    by (simp_all add: init_pool_def)
  from run_spawns [OF this, of cap] obtain s1 where
    r1: "run cap (replicate ?n Spawn) (init_pool places) = Some s1"
    and s1: "pcs s1 = replicate ?n AtAcquire" "spawned s1 = ?n" "wg s1 = ?n" "semaphore s1 = 0"
      "bar s1 = 0" "returned s1 = False" "updatedPlaces s1 = places"
    by (auto simp: init_pool_def)
  have "pcs s1 = replicate 0 Finished @ replicate ?n AtAcquire" using s1(1) by simp
  from run_workers [OF this s1(4) assms s1(3), of places outcome] s1(7) obtain s2 where
    r2: "run cap (concat (map (worker_sched outcome places) [0..<?n])) s1 = Some s2"
    and s2: "pcs s2 = replicate ?n Finished" "wg s2 = 0" "spawned s2 = spawned s1"
      "returned s2 = returned s1"
    by auto
  have r3: "run cap [Wait] s2 = Some (s2\<lparr>returned := True\<rparr>)"
    using s2 s1(2,6) by simp
  have "run cap (seq_sched outcome places) (init_pool places) = Some (s2\<lparr>returned := True\<rparr>)"
    unfolding seq_sched_def using r1 r2 r3 by (simp add: run_append)
  then show ?thesis by simp
qed

lemma ProcessCSV_can_return:
  assumes "readCSV file = Inr places" "places \<noteq> []"
  shows "\<exists>sm. ProcessCSV file None (seq_sched outcome places) None = Some (Inr sm)"
proof -
  have "0 < maxPhoneWorkers" by (simp add: maxPhoneWorkers_def)
  from pool_can_return [OF this, of outcome places] obtain s where
    "run maxPhoneWorkers (seq_sched outcome places) (init_pool places) = Some s" "returned s"
    by blast
  then show ?thesis
    using assms by (simp add: ProcessCSV_def processPlacesWithPhones_def)
qed

section \<open>Properties of \<^verbatim>\<open>ProcessCSV\<close>\<close>

lemma count_phones_acc:
  "count_phones ps n = n + length (filter (\<lambda>p. ScrapedPhone p \<noteq> []) ps)"
  by (induction ps arbitrary: n) simp_all

lemma rows_to_places_unscraped:
  "list_all (\<lambda>p. ScrapedPhone p = []) (rows_to_places rows)"
  by (induction rows) simp_all

lemma readCSV_unscraped:
  "readCSV file = Inr places \<Longrightarrow> list_all (\<lambda>p. ScrapedPhone p = []) places"
  by (auto simp: readCSV_def rows_to_places_unscraped split: sum.splits if_splits)

lemma disjoint_counts:
  "list_all (\<lambda>p. \<not> (A p \<and> B p)) xs \<Longrightarrow>
     length (filter A xs) + length (filter B xs) = length (filter (\<lambda>p. B p \<or> A p) xs)"
  by (induction xs) auto

lemma frame_ok_Phone:
  assumes "frame_ok p0 p q"
  shows "Phone p = Phone p0"
proof -
  from assms have e: "p\<lparr>ScrapedPhone := []\<rparr> = p0\<lparr>ScrapedPhone := []\<rparr>"
    by (simp add: frame_ok_def)
  have "Phone (p\<lparr>ScrapedPhone := []\<rparr>) = Phone (p0\<lparr>ScrapedPhone := []\<rparr>)"
    by (simp only: e)
  then show ?thesis by simp
qed

lemma frame_ok_skipped: "frame_ok p0 p q \<Longrightarrow> \<not> eligible p0 \<Longrightarrow> p = p0 \<and> \<not> enriching q \<and> \<not> pacing q"
  by (simp add: frame_ok_def)

lemma scraped_only_without_phone:
  assumes inv: "frame_inv places s" and un: "list_all (\<lambda>p. ScrapedPhone p = []) places"
  shows "list_all (\<lambda>p. \<not> (ScrapedPhone p \<noteq> [] \<and> Phone p \<noteq> [])) (updatedPlaces s)"
proof -
  have len: "length (updatedPlaces s) = length places"
    using inv by (simp add: frame_inv_def)
  have "\<not> (ScrapedPhone (updatedPlaces s ! i) \<noteq> [] \<and> Phone (updatedPlaces s ! i) \<noteq> [])"
    if i: "i < length places" for i
  proof (cases "eligible (places ! i)")
    case True
    then have "Phone (places ! i) = []" by (simp add: eligible_def)
    with frame_ok_Phone [OF frame_inv_nth [OF inv i]] show ?thesis by simp
  next
    case False
    with frame_ok_skipped [OF frame_inv_nth [OF inv i]]
    have "updatedPlaces s ! i = places ! i" by simp
    moreover have "ScrapedPhone (places ! i) = []"
      using un i by (simp add: list_all_length)
    ultimately show ?thesis by simp
  qed
  then show ?thesis using len by (simp add: list_all_length)
qed

lemma phone_preds:
  "has_scraped_phone = (\<lambda>p. ScrapedPhone p \<noteq> [])"
  "has_original_phone = (\<lambda>p. Phone p \<noteq> [])"
  "has_phone = (\<lambda>p. Phone p \<noteq> [] \<or> ScrapedPhone p \<noteq> [])"
  by (simp_all add: fun_eq_iff has_scraped_phone_def has_original_phone_def has_phone_def)

text \<open>
  \<^bold>\<open>C2, as amended.\<close> When \<^verbatim>\<open>ProcessCSV\<close> completes, the total it reports is the number of
  records and the count of phones it reports is the number of records whose extracted phone
  is not empty. A record with an original phone is never counted: the count is the number of
  records with a phone of either kind less the number of records with an original phone.
\<close>

theorem ProcessCSV_summary:
  assumes "ProcessCSV file scraper_err sched save_err = Some (Inr sm)"
  shows "\<exists>places updated.
           readCSV file = Inr places
         \<and> processPlacesWithPhones sched places = Some updated
         \<and> totalPlaces sm = length places
         \<and> length updated = length places
         \<and> phonesFound sm = length (filter has_scraped_phone updated)
         \<and> phonesFound sm + length (filter has_original_phone updated)
             = length (filter has_phone updated)"
proof -
  from assms obtain places updated where
    rd: "readCSV file = Inr places" and
    pr: "processPlacesWithPhones sched places = Some updated" and
    sm: "sm = \<lparr>totalPlaces = length updated, phonesFound = count_phones updated 0\<rparr>"
    unfolding ProcessCSV_def
    by (auto split: sum.splits if_splits option.splits)
  from pr obtain s where
    rn: "run maxPhoneWorkers sched (init_pool places) = Some s" and
    up: "updated = updatedPlaces s"
    unfolding processPlacesWithPhones_def
    by (auto split: option.splits if_splits)
  from run_invs [OF rn] have fr: "frame_inv places s" by simp
  then have len: "length updated = length places"
    unfolding up by (simp add: frame_inv_def)
  have cnt: "phonesFound sm = length (filter has_scraped_phone updated)"
    unfolding sm by (simp add: count_phones_acc phone_preds)
  have "list_all (\<lambda>p. \<not> (ScrapedPhone p \<noteq> [] \<and> Phone p \<noteq> [])) updated"
    unfolding up by (rule scraped_only_without_phone [OF fr readCSV_unscraped [OF rd]])
  then have "list_all (\<lambda>p. \<not> (has_scraped_phone p \<and> has_original_phone p)) updated"
    by (simp add: phone_preds)
  from disjoint_counts [of has_scraped_phone has_original_phone updated, OF this]
  have dj: "phonesFound sm + length (filter has_original_phone updated)
             = length (filter has_phone updated)"
    unfolding cnt by (simp add: phone_preds)
  have tot: "totalPlaces sm = length places"
    unfolding sm using len by simp
  from rd pr tot len cnt dj show ?thesis by blast
qed

lemma five_ProcessCSV:
  "ProcessCSV (Inr five_rows) None five_sched None
     = Some (Inr \<lparr>totalPlaces = 5, phonesFound = 2\<rparr>)"
  by code_simp

lemma five_any_phone:
  "length (filter has_phone five_updated) = 4"
  by code_simp

lemma five_process:
  "processPlacesWithPhones five_sched five_places = Some five_updated"
  by code_simp

lemma five_read: "readCSV (Inr five_rows) = Inr five_places"
  by code_simp

theorem ProcessCSV_summary_witness:
  "ProcessCSV (Inr five_rows) None five_sched None
     = Some (Inr \<lparr>totalPlaces = 5, phonesFound = 2\<rparr>)
   \<and> length (filter has_scraped_phone five_updated) = 2
   \<and> 2 + length (filter has_original_phone five_updated)
       = length (filter has_phone five_updated)"
proof -
  from ProcessCSV_summary [OF five_ProcessCSV] obtain places updated where
    h: "readCSV (Inr five_rows) = Inr places"
      "processPlacesWithPhones five_sched places = Some updated"
      "phonesFound \<lparr>totalPlaces = 5, phonesFound = 2\<rparr>
         = length (filter has_scraped_phone updated)"
      "phonesFound \<lparr>totalPlaces = 5, phonesFound = 2\<rparr>
         + length (filter has_original_phone updated)
         = length (filter has_phone updated)"
    by blast
  from h(1) five_read have "places = five_places" by simp
  with h(2) five_process have u: "updated = five_updated" by simp
  from h(3) have a: "length (filter has_scraped_phone five_updated) = 2"
    unfolding u by simp
  from h(4) have b: "2 + length (filter has_original_phone five_updated)
       = length (filter has_phone five_updated)"
    unfolding u by simp
  show ?thesis by (intro conjI five_ProcessCSV a b)
qed

text \<open>
  \<^bold>\<open>C2, as stated, fails.\<close> Five records, two with an original phone; of the three
  extractions two succeed and one times out. Four records end with a phone, original or
  extracted, and \<^verbatim>\<open>ProcessCSV\<close> reports 2 of 5.
\<close>

theorem with_phone_count_counterexample:
  "readCSV (Inr five_rows) = Inr five_places
   \<and> processPlacesWithPhones five_sched five_places = Some five_updated
   \<and> length (filter has_phone five_updated) = 4
   \<and> ProcessCSV (Inr five_rows) None five_sched None
       = Some (Inr \<lparr>totalPlaces = 5, phonesFound = 2\<rparr>)"
  by (intro conjI five_read five_process five_any_phone five_ProcessCSV)

text \<open>
  \<^bold>\<open>C8, as amended.\<close> When the file has been read, \<^verbatim>\<open>ProcessCSV\<close> rejects the batch
  with the error \<^verbatim>\<open>no places found in CSV\<close> exactly when no record was loaded. When
  records were loaded and \<^verbatim>\<open>NewPhoneScraper\<close> fails, it rejects the batch with the error
  of the scraper and starts no pool. When records were loaded and the scraper was created,
  it runs the worker pool over all the records, one goroutine each: it returns, with its
  statistics or with the error of saving, exactly when that pool has returned, and for every
  outcome of the extractions there is a run in which it reports its statistics. In every
  state of a run of the pool, the record of a goroutine that is not eligible (it has an
  original phone, or no source-page reference) is unchanged and its goroutine is neither in
  the extraction nor in the delay; and when the pool has returned every goroutine has
  finished and the bar has counted every record.
\<close>

theorem ProcessCSV_rejects_empty:
  assumes "readCSV file = Inr places"
  shows "(ProcessCSV file scraper_err sched save_err = Some (Inl ''no places found in CSV'')
            \<longleftrightarrow> places = [])
       \<and> (\<forall>e. places \<noteq> [] \<and> scraper_err = Some e \<longrightarrow>
              ProcessCSV file scraper_err sched save_err
                = Some (Inl (''error creating phone scraper: '' @ e)))
       \<and> (places \<noteq> [] \<and> scraper_err = None \<longrightarrow>
              ((\<exists>r. ProcessCSV file scraper_err sched save_err = Some r)
                 \<longleftrightarrow> (\<exists>s. run maxPhoneWorkers sched (init_pool places) = Some s \<and> returned s))
            \<and> (\<forall>outcome. \<exists>sm.
                  ProcessCSV file scraper_err (seq_sched outcome places) None = Some (Inr sm)))
       \<and> (\<forall>s. run maxPhoneWorkers sched (init_pool places) = Some s \<longrightarrow>
              length (pcs s) = length places
            \<and> (\<forall>i < length places. \<not> eligible (places ! i) \<longrightarrow>
                  updatedPlaces s ! i = places ! i
                  \<and> \<not> enriching (pcs s ! i) \<and> \<not> pacing (pcs s ! i))
            \<and> (returned s \<longrightarrow>
                  list_all (\<lambda>p. p = Finished) (pcs s) \<and> bar s = length places))
       \<and> (\<forall>sm. ProcessCSV file scraper_err sched save_err = Some (Inr sm) \<longrightarrow>
              (\<exists>s. run maxPhoneWorkers sched (init_pool places) = Some s \<and> returned s))"
proof -
  have a: "ProcessCSV file scraper_err sched save_err = Some (Inl ''no places found in CSV'')
            \<longleftrightarrow> places = []"
    unfolding ProcessCSV_def assms
    by (simp split: option.splits)
  have d: "\<forall>e. places \<noteq> [] \<and> scraper_err = Some e \<longrightarrow>
              ProcessCSV file scraper_err sched save_err
                = Some (Inl (''error creating phone scraper: '' @ e))"
    unfolding ProcessCSV_def assms by simp
  have e1: "(\<exists>r. ProcessCSV file scraper_err sched save_err = Some r)
              \<longleftrightarrow> (\<exists>s. run maxPhoneWorkers sched (init_pool places) = Some s \<and> returned s)"
    if ne: "places \<noteq> []" and ok: "scraper_err = None"
  proof
    assume "\<exists>r. ProcessCSV file scraper_err sched save_err = Some r"
    then obtain updated where "processPlacesWithPhones sched places = Some updated"
      unfolding ProcessCSV_def assms using ne ok by (auto split: option.splits)
    then show "\<exists>s. run maxPhoneWorkers sched (init_pool places) = Some s \<and> returned s"
      unfolding processPlacesWithPhones_def by (auto split: option.splits if_splits)
  next
    assume "\<exists>s. run maxPhoneWorkers sched (init_pool places) = Some s \<and> returned s"
    then obtain updated where "processPlacesWithPhones sched places = Some updated"
      unfolding processPlacesWithPhones_def by auto
    then show "\<exists>r. ProcessCSV file scraper_err sched save_err = Some r"
      unfolding ProcessCSV_def assms using ne ok by (simp split: option.splits)
  qed
  have e2: "\<forall>outcome. \<exists>sm.
              ProcessCSV file scraper_err (seq_sched outcome places) None = Some (Inr sm)"
    if ne: "places \<noteq> []" and ok: "scraper_err = None"
    unfolding ok by (intro allI) (rule ProcessCSV_can_return [OF assms ne])
  have e: "places \<noteq> [] \<and> scraper_err = None \<longrightarrow>
              ((\<exists>r. ProcessCSV file scraper_err sched save_err = Some r)
                 \<longleftrightarrow> (\<exists>s. run maxPhoneWorkers sched (init_pool places) = Some s \<and> returned s))
            \<and> (\<forall>outcome. \<exists>sm.
                  ProcessCSV file scraper_err (seq_sched outcome places) None = Some (Inr sm))"
  proof (intro impI conjI)
    assume h: "places \<noteq> [] \<and> scraper_err = None"
    show "(\<exists>r. ProcessCSV file scraper_err sched save_err = Some r)
            \<longleftrightarrow> (\<exists>s. run maxPhoneWorkers sched (init_pool places) = Some s \<and> returned s)"
      by (rule e1 [OF h [THEN conjunct1] h [THEN conjunct2]])
    show "\<forall>outcome. \<exists>sm.
            ProcessCSV file scraper_err (seq_sched outcome places) None = Some (Inr sm)"
      by (rule e2 [OF h [THEN conjunct1] h [THEN conjunct2]])
  qed
  have b: "length (pcs s) = length places
            \<and> (\<forall>i < length places. \<not> eligible (places ! i) \<longrightarrow>
                  updatedPlaces s ! i = places ! i
                  \<and> \<not> enriching (pcs s ! i) \<and> \<not> pacing (pcs s ! i))
            \<and> (returned s \<longrightarrow>
                  list_all (\<lambda>p. p = Finished) (pcs s) \<and> bar s = length places)"
    if rn: "run maxPhoneWorkers sched (init_pool places) = Some s" for s
  proof -
    from run_invs [OF rn]
    have inv: "pool_inv maxPhoneWorkers s" "tick_inv s" "frame_inv places s" by simp_all
    have len: "length (pcs s) = length places"
      using inv(3) by (simp add: frame_inv_def)
    have sk: "\<forall>i < length places. \<not> eligible (places ! i) \<longrightarrow>
                  updatedPlaces s ! i = places ! i
                  \<and> \<not> enriching (pcs s ! i) \<and> \<not> pacing (pcs s ! i)"
    proof (intro allI impI)
      fix i assume "i < length places" "\<not> eligible (places ! i)"
      then show "updatedPlaces s ! i = places ! i
                  \<and> \<not> enriching (pcs s ! i) \<and> \<not> pacing (pcs s ! i)"
        using frame_ok_skipped [OF frame_inv_nth [OF inv(3)]] by simp
    qed
    have rt: "returned s \<longrightarrow> list_all (\<lambda>p. p = Finished) (pcs s) \<and> bar s = length places"
    proof
      assume r: "returned s"
      have f: "list_all (\<lambda>p. p = Finished) (pcs s)"
        by (rule returned_finished [OF inv(1,2) r])
      have "bar s = length (filter ticked (pcs s))"
        using inv(2) by (simp add: tick_inv_def)
      with all_finished_counts(2) [OF f] len f
      show "list_all (\<lambda>p. p = Finished) (pcs s) \<and> bar s = length places" by simp
    qed
    show ?thesis by (intro conjI len sk rt)
  qed
  have b': "\<forall>s. run maxPhoneWorkers sched (init_pool places) = Some s \<longrightarrow>
              length (pcs s) = length places
            \<and> (\<forall>i < length places. \<not> eligible (places ! i) \<longrightarrow>
                  updatedPlaces s ! i = places ! i
                  \<and> \<not> enriching (pcs s ! i) \<and> \<not> pacing (pcs s ! i))
            \<and> (returned s \<longrightarrow>
                  list_all (\<lambda>p. p = Finished) (pcs s) \<and> bar s = length places)"
    by (intro allI impI) (rule b)
  have c: "\<forall>sm. ProcessCSV file scraper_err sched save_err = Some (Inr sm) \<longrightarrow>
              (\<exists>s. run maxPhoneWorkers sched (init_pool places) = Some s \<and> returned s)"
    unfolding ProcessCSV_def processPlacesWithPhones_def assms
    by (auto split: option.splits if_splits)
  show ?thesis by (intro conjI a d e b' c)
qed

lemma one_read: "readCSV (Inr one_row) = Inr one_places"
  by code_simp

lemma one_run: "run maxPhoneWorkers one_sched (init_pool one_places) = Some one_state"
  by code_simp

lemma one_ProcessCSV:
  "ProcessCSV (Inr one_row) None one_sched None
     = Some (Inr \<lparr>totalPlaces = 1, phonesFound = 0\<rparr>)"
  by code_simp

lemma one_not_eligible: "filter eligible one_places = []"
  by code_simp

lemma one_facts:
  "length one_places = 1" "\<not> eligible (one_places ! 0)" "returned one_state"
  "one_places \<noteq> []"
  by code_simp+

theorem ProcessCSV_rejects_empty_witness:
  "readCSV (Inr one_row) = Inr one_places
   \<and> run maxPhoneWorkers one_sched (init_pool one_places) = Some one_state
   \<and> \<not> eligible (one_places ! 0) \<and> returned one_state
   \<and> ProcessCSV (Inr one_row) None one_sched None \<noteq> Some (Inl ''no places found in CSV'')
   \<and> updatedPlaces one_state ! 0 = one_places ! 0
   \<and> \<not> enriching (pcs one_state ! 0)
   \<and> list_all (\<lambda>p. p = Finished) (pcs one_state) \<and> bar one_state = length one_places
   \<and> ProcessCSV (Inr one_row) None one_sched None
       = Some (Inr \<lparr>totalPlaces = 1, phonesFound = 0\<rparr>)
   \<and> (\<exists>s. run maxPhoneWorkers one_sched (init_pool one_places) = Some s \<and> returned s)
   \<and> ProcessCSV (Inr one_row) (Some ''Google Chrome missing'') one_sched None
       = Some (Inl ''error creating phone scraper: Google Chrome missing'')
   \<and> (\<exists>r. ProcessCSV (Inr one_row) None one_sched None = Some r)
   \<and> (\<exists>sm. ProcessCSV (Inr one_row) None (seq_sched (\<lambda>i. ([], None)) one_places) None
              = Some (Inr sm))"
proof -
  note th = ProcessCSV_rejects_empty [OF one_read, of None one_sched None]
  note th2 = ProcessCSV_rejects_empty [OF one_read, of "Some ''Google Chrome missing''"
      one_sched None]
  note c1 = th [THEN conjunct1]
  note c3 = th [THEN conjunct2, THEN conjunct2, THEN conjunct1]
  note c4 = th [THEN conjunct2, THEN conjunct2, THEN conjunct2, THEN conjunct1]
  note c5 = th [THEN conjunct2, THEN conjunct2, THEN conjunct2, THEN conjunct2]
  have ok: "one_places \<noteq> [] \<and> (None :: string option) = None"
    using one_facts(4) by simp
  from c5 [rule_format, OF one_ProcessCSV]
  have d: "\<exists>s. run maxPhoneWorkers one_sched (init_pool one_places) = Some s \<and> returned s" .
  from c1 one_facts(4)
  have a: "ProcessCSV (Inr one_row) None one_sched None \<noteq> Some (Inl ''no places found in CSV'')"
    by simp
  from c4 [rule_format, OF one_run]
  have b: "\<forall>i < length one_places. \<not> eligible (one_places ! i) \<longrightarrow>
                  updatedPlaces one_state ! i = one_places ! i
                  \<and> \<not> enriching (pcs one_state ! i) \<and> \<not> pacing (pcs one_state ! i)"
    and c: "returned one_state \<longrightarrow>
                  list_all (\<lambda>p. p = Finished) (pcs one_state) \<and> bar one_state = length one_places"
    by simp_all
  from b [rule_format, of 0] one_facts(1,2)
  have b0: "updatedPlaces one_state ! 0 = one_places ! 0" "\<not> enriching (pcs one_state ! 0)"
    by simp_all
  from c one_facts(3)
  have c0: "list_all (\<lambda>p. p = Finished) (pcs one_state)" "bar one_state = length one_places"
    by simp_all
  have sf: "one_places \<noteq> [] \<and> Some ''Google Chrome missing'' = Some ''Google Chrome missing''"
    using one_facts(4) by simp
  from th2 [THEN conjunct2, THEN conjunct1, rule_format, OF sf]
  have f: "ProcessCSV (Inr one_row) (Some ''Google Chrome missing'') one_sched None
       = Some (Inl ''error creating phone scraper: Google Chrome missing'')"
    by simp
  from c3 [rule_format, OF ok]
  have g: "(\<exists>r. ProcessCSV (Inr one_row) None one_sched None = Some r)
             \<longleftrightarrow> (\<exists>s. run maxPhoneWorkers one_sched (init_pool one_places) = Some s \<and> returned s)"
    and h: "\<forall>outcome. \<exists>sm.
              ProcessCSV (Inr one_row) None (seq_sched outcome one_places) None = Some (Inr sm)"
    by (rule conjunct1, rule conjunct2)
  from g d have g0: "\<exists>r. ProcessCSV (Inr one_row) None one_sched None = Some r"
    by (rule iffD2)
  have h0: "\<exists>sm. ProcessCSV (Inr one_row) None (seq_sched (\<lambda>i. ([], None)) one_places) None
              = Some (Inr sm)"
    by (rule h [rule_format])
  show ?thesis
    by (intro conjI one_read one_run one_facts(2) one_facts(3) a b0 c0 one_ProcessCSV d f g0 h0)
qed

lemma five_eligible: "length (filter eligible five_places) = 3"
  by code_simp

lemma five_scraper_fails:
  "ProcessCSV (Inr five_rows) (Some ''Google Chrome missing'') five_sched None
     = Some (Inl ''error creating phone scraper: Google Chrome missing'')"
  by code_simp

text \<open>
  \<^bold>\<open>C8, as stated, fails.\<close> A batch of one record that has an original phone has no eligible
  record, and \<^verbatim>\<open>ProcessCSV\<close> does not reject it: it runs the pool and reports 0 of 1. And
  a batch of five records of which three are eligible is rejected with an error, and no
  pool is run, when the scraper cannot be created.
\<close>

theorem rejects_iff_no_eligible_counterexample:
  "readCSV (Inr one_row) = Inr one_places
   \<and> filter eligible one_places = []
   \<and> ProcessCSV (Inr one_row) None one_sched None
       = Some (Inr \<lparr>totalPlaces = 1, phonesFound = 0\<rparr>)
   \<and> readCSV (Inr five_rows) = Inr five_places
   \<and> length (filter eligible five_places) = 3
   \<and> ProcessCSV (Inr five_rows) (Some ''Google Chrome missing'') five_sched None
       = Some (Inl ''error creating phone scraper: Google Chrome missing'')"
  by (intro conjI one_read one_not_eligible one_ProcessCSV five_read five_eligible
      five_scraper_fails)

section \<open>Properties of the extraction job\<close>

lemma job_inv_init: "job_inv init_job"
  by (simp add: job_inv_def init_job_def)

lemma job_inv_step: "job_inv s \<Longrightarrow> job_step e s = Some s' \<Longrightarrow> job_inv s'"
proof (induction e s rule: job_step.induct)
  case (1 s)
  then show ?case by (auto simp: job_inv_def split: if_splits lookup_pc.splits)
next
  case (2 e s)
  then show ?case by (auto simp: job_inv_def split: if_splits lookup_pc.splits)
next
  case (3 s)
  then show ?case by (auto simp: job_inv_def split: if_splits lookup_pc.splits)
next
  case (4 phone s)
  then show ?case by (auto simp: job_inv_def split: if_splits lookup_pc.splits)
next
  case (5 s)
  then show ?case by (auto simp: job_inv_def split: if_splits lookup_pc.splits list.splits)
next
  case (6 s)
  then show ?case by (auto simp: job_inv_def split: if_splits lookup_pc.splits list.splits)
next
  case (7 s)
  then show ?case by (auto simp: job_inv_def split: if_splits lookup_pc.splits)
qed

lemma job_inv_run: "job_inv s \<Longrightarrow> job_run es s = Some s' \<Longrightarrow> job_inv s'"
  by (induction es arbitrary: s) (auto split: option.splits dest: job_inv_step)

text \<open>
  \<^bold>\<open>C6, as amended.\<close> For a job that has loaded its page, at the step in which its
  \<^verbatim>\<open>select\<close> decides: if the lookup has not returned, the deadline has elapsed and the job
  reports the timeout failure; the lookup is not cancelled, for it can still return
  whatever it finds, and that changes nothing in what the job has reported; and if the
  deadline has not elapsed, the lookup has returned and the job reports its result, the
  phone when it is not empty and the not-found failure when it is.
\<close>

theorem select_decides:
  assumes rn: "job_run es init_job = Some s" and st: "job_step (Select c) s = Some s'"
  shows "(lookup s = Running \<longrightarrow>
            ctx_done s \<and> caller s' = Reported [] (Some ''timeout finding phone'')
            \<and> (\<forall>phone. \<exists>s''. job_step (LocatorReturns phone) s' = Some s''
                              \<and> caller s'' = caller s'))
       \<and> (\<not> ctx_done s \<longrightarrow> (\<exists>phone. lookup s = Returned phone \<and> caller s' = locator_report phone))"
proof -
  have inv: "job_inv s" by (rule job_inv_run [OF job_inv_init rn])
  from st have at: "caller s = AtSelect" by (cases c) (auto split: if_splits)
  have a: "ctx_done s \<and> caller s' = Reported [] (Some ''timeout finding phone'')
            \<and> (\<forall>phone. \<exists>s''. job_step (LocatorReturns phone) s' = Some s''
                              \<and> caller s'' = caller s')"
    if r: "lookup s = Running"
  proof -
    from inv r have e: "done_ch s = []" "err_ch s = []" by (simp_all add: job_inv_def)
    from st e at have c: "c = CaseCtx" by (cases c) simp_all
    with st have cd: "ctx_done s" and s': "s' = s\<lparr>caller := Reported [] (Some ''timeout finding phone'')\<rparr>"
      by (auto split: if_splits)
    have "\<exists>s''. job_step (LocatorReturns phone) s' = Some s'' \<and> caller s'' = caller s'" for phone
      unfolding s' using r by simp
    with cd s' show ?thesis by simp
  qed
  have b: "\<exists>phone. lookup s = Returned phone \<and> caller s' = locator_report phone"
    if n: "\<not> ctx_done s"
  proof (cases "lookup s")
    case NotStarted
    with inv at show ?thesis by (simp add: job_inv_def)
  next
    case Running
    with a n show ?thesis by simp
  next
    case (Returned phone)
    with inv at have ch: "if phone \<noteq> [] then done_ch s = [phone] \<and> err_ch s = []
                    else done_ch s = [] \<and> err_ch s = [''no phone found'']"
      by (simp add: job_inv_def)
    from st n at ch have "caller s' = locator_report phone"
      by (cases c) (auto simp: locator_report_def split: if_splits)
    with Returned show ?thesis by simp
  qed
  from a b show ?thesis by blast
qed

lemma run_deadline_ready:
  "job_run [PageReady, Deadline] init_job
     = Some \<lparr>caller = AtSelect, ctx_done = True, lookup = Running, done_ch = [], err_ch = []\<rparr>"
  by (simp add: init_job_def)

lemma run_locator_first:
  "job_run [PageReady, LocatorReturns ''222 123 4567''] init_job
     = Some \<lparr>caller = AtSelect, ctx_done = False, lookup = Returned ''222 123 4567'',
             done_ch = [''222 123 4567''], err_ch = []\<rparr>"
  by (simp add: init_job_def)

theorem select_decides_witness:
  "caller (the (job_run [PageReady, Deadline, Select CaseCtx] init_job))
     = Reported [] (Some ''timeout finding phone'')
   \<and> caller (the (job_run [PageReady, Deadline, Select CaseCtx,
                            LocatorReturns ''222 123 4567''] init_job))
     = Reported [] (Some ''timeout finding phone'')
   \<and> caller (the (job_run [PageReady, LocatorReturns ''222 123 4567'', Select CaseDone]
                    init_job))
     = Reported ''222 123 4567'' None"
proof -
  let ?s1 = "\<lparr>caller = AtSelect, ctx_done = True, lookup = Running, done_ch = [], err_ch = []\<rparr>"
  let ?s1' = "?s1\<lparr>caller := Reported [] (Some ''timeout finding phone'')\<rparr>"
  let ?s2 = "\<lparr>caller = AtSelect, ctx_done = False, lookup = Returned ''222 123 4567'',
             done_ch = [''222 123 4567''], err_ch = []\<rparr>"
  let ?s2' = "?s2\<lparr>caller := Reported ''222 123 4567'' None, done_ch := []\<rparr>"
  have st1: "job_step (Select CaseCtx) ?s1 = Some ?s1'" by simp
  have st2: "job_step (Select CaseDone) ?s2 = Some ?s2'" by simp
  note a = select_decides [OF run_deadline_ready st1]
  note b = select_decides [OF run_locator_first st2]
  from a have a1: "caller ?s1' = Reported [] (Some ''timeout finding phone'')" by simp
  from b have b1: "caller ?s2' = locator_report ''222 123 4567''" by simp
  show ?thesis
    using a1 b1 by (simp add: init_job_def locator_report_def)
qed

text \<open>
  \<^bold>\<open>C6, as stated, fails.\<close> The deadline is read by the \<^verbatim>\<open>select\<close> only. A job whose
  deadline elapses while it navigates, and whose navigation then fails, reports the
  navigation failure, not a timeout; and a job whose deadline elapses while it waits for the
  page, and whose lookup returns before its \<^verbatim>\<open>select\<close> runs, can report the phone: the
  \<^verbatim>\<open>select\<close> finds two cases ready.
\<close>

theorem timeout_report_counterexample:
  "map_option caller (job_run [Deadline, NavigateFails ''net::ERR_TIMED_OUT''] init_job)
     = Some (Reported [] (Some ''failed to navigate to URL: net::ERR_TIMED_OUT''))
   \<and> map_option caller
        (job_run [Deadline, PageReady, LocatorReturns ''222 123 4567'', Select CaseDone]
           init_job)
     = Some (Reported ''222 123 4567'' None)"
  by (simp add: init_job_def)

section \<open>Properties of the broadcaster\<close>

text \<open>
  \<^bold>\<open>C9, as amended.\<close> A step of the broadcaster that removes an observer from the registered
  set is either a failed write to that observer in \<^verbatim>\<open>handleMessages\<close> or a failed read
  from that observer's connection in its handler \<^verbatim>\<open>handleWebSocket\<close>.
\<close>

theorem observer_removal:
  assumes "bc_step e s = Some s'" and "registered c s" and "\<not> registered c s'"
  shows "e = WriteError c \<or> e = ReadError c"
  using assms by (cases e) (auto simp: registered_def split: if_splits)

theorem observer_removal_witness:
  "bc_step (WriteError 1) one_client = Some (one_client\<lparr>clients := Map.empty\<rparr>)
   \<and> registered 1 one_client
   \<and> \<not> registered 1 (one_client\<lparr>clients := Map.empty\<rparr>)
   \<and> (WriteError 1 = WriteError (1::nat) \<or> WriteError 1 = ReadError (1::nat))"
proof -
  have a: "bc_step (WriteError 1) one_client = Some (one_client\<lparr>clients := Map.empty\<rparr>)"
    by (simp add: one_client_def)
  have b: "registered 1 one_client" by (simp add: one_client_def registered_def)
  have c: "\<not> registered 1 (one_client\<lparr>clients := Map.empty\<rparr>)"
    by (simp add: registered_def)
  from observer_removal [OF a b c] a b c show ?thesis by blast
qed

text \<open>
  \<^bold>\<open>C9, as stated, fails.\<close> With one observer connected, a failed read in its handler
  removes it from the registered set, and no write to it has failed.
\<close>

theorem removal_without_write_counterexample:
  "bc_run [Connect 1] init_broadcaster = Some one_client
   \<and> registered 1 one_client
   \<and> bc_step (ReadError 1) one_client = Some client_gone
   \<and> \<not> registered 1 client_gone"
  by (simp add: init_broadcaster_def one_client_def client_gone_def registered_def)

end
